theory Spec2Isabelle
  imports Main "HOL-Library.AList"
begin

section \<open>Data model of \<open>queueAlgorithm.js\<close>\<close>

text \<open>
  A game row carries four participant slots. The slot type is a parameter: the pairing
  and recency functions only compare slots with \<open>===\<close>. Inside \<open>generateQueue\<close> the
  slot type is \<open>nat option\<close>: \<open>Some i\<close> is the id \<open>i\<close>, and \<open>None\<close> is what JavaScript
  reads from an object that has no such property (\<open>undefined\<close>). JavaScript numbers
  (counters, scores, \<open>total_games_played\<close>) are modelled as unbounded integers.
\<close>

record 'a game =
  team1_player1_id :: 'a
  team1_player2_id :: 'a
  team2_player1_id :: 'a
  team2_player2_id :: 'a

record pairing =
  teammates :: int
  opponents :: int

record player =
  player_id :: nat
  total_games_played :: int

text \<open>An entry of \<open>newQueue\<close>: the object \<open>{ team1: [..], team2: [..] }\<close>.\<close>

record matchup =
  team1 :: "player list"
  team2 :: "player list"

section \<open>\<open>getPlayerPairingHistory\<close>\<close>

text \<open>The body of the \<open>forEach\<close> callback, applied to the two running counters.\<close>

definition pairingStep :: "'a \<Rightarrow> 'a \<Rightarrow> pairing \<Rightarrow> 'a game \<Rightarrow> pairing" where
  "pairingStep p1 p2 acc game =
    (let p1InTeam1 = (team1_player1_id game = p1 \<or> team1_player2_id game = p1);
         p1InTeam2 = (team2_player1_id game = p1 \<or> team2_player2_id game = p1);
         p2InTeam1 = (team1_player1_id game = p2 \<or> team1_player2_id game = p2);
         p2InTeam2 = (team2_player1_id game = p2 \<or> team2_player2_id game = p2)
     in if (p1InTeam1 \<and> p2InTeam1) \<or> (p1InTeam2 \<and> p2InTeam2)
        then acc\<lparr>teammates := teammates acc + 1\<rparr>
        else if (p1InTeam1 \<and> p2InTeam2) \<or> (p1InTeam2 \<and> p2InTeam1)
        then acc\<lparr>opponents := opponents acc + 1\<rparr>
        else acc)"

definition getPlayerPairingHistory :: "'a \<Rightarrow> 'a \<Rightarrow> 'a game list \<Rightarrow> pairing" where
  "getPlayerPairingHistory p1 p2 games =
     foldl (pairingStep p1 p2) \<lparr>teammates = 0, opponents = 0\<rparr> games"

section \<open>\<open>getPlayerInteractionScore\<close>\<close>

text \<open>\<open>xs.slice(-n)\<close>: the last \<open>n\<close> elements, or all of \<open>xs\<close> when it is shorter.\<close>

definition sliceLast :: "nat \<Rightarrow> 'a list \<Rightarrow> 'a list" where
  "sliceLast n xs = drop (length xs - n) xs"

definition maxGamesToCheck :: int where
  "maxGamesToCheck = 10"

text \<open>
  The callback of \<open>forEach((game, idx) => ...)\<close>. \<open>idx\<close> is the position inside the
  slice, while \<open>distance\<close> is computed from the length of the whole list.
\<close>

definition interactionStep :: "'a \<Rightarrow> 'a \<Rightarrow> 'a game list \<Rightarrow> int \<Rightarrow> nat \<times> 'a game \<Rightarrow> int" where
  "interactionStep p1 p2 recentGames score ig =
    (let idx = fst ig; game = snd ig;
         distance = int (length recentGames) - int idx;
         isP1InGame = (team1_player1_id game = p1 \<or> team1_player2_id game = p1 \<or>
                       team2_player1_id game = p1 \<or> team2_player2_id game = p1);
         isP2InGame = (team1_player1_id game = p2 \<or> team1_player2_id game = p2 \<or>
                       team2_player1_id game = p2 \<or> team2_player2_id game = p2)
     in if isP1InGame \<and> isP2InGame then score + (maxGamesToCheck - distance + 1) * 2
        else score)"

definition getPlayerInteractionScore :: "'a \<Rightarrow> 'a \<Rightarrow> 'a game list \<Rightarrow> int" where
  "getPlayerInteractionScore p1 p2 recentGames =
     foldl (interactionStep p1 p2 recentGames) 0
       (enumerate 0 (sliceLast (nat maxGamesToCheck) recentGames))"

section \<open>\<open>generateQueue\<close>\<close>

subsection \<open>The usage counters \<open>queueCount\<close>\<close>

text \<open>
  \<open>queueCount\<close> is an object keyed by participant id: an association list with one
  entry per key. \<open>queueCount[k] = v\<close> is \<open>AList.update k v\<close>, \<open>Object.values\<close> is
  \<open>map snd\<close>. A key that was never written reads as \<open>undefined\<close>, which is \<open>None\<close> of
  \<open>map_of\<close>; \<open>generateQueue\<close> writes every id of \<open>availablePlayers\<close> before the
  first read and reads no other key, so the \<open>None\<close> branch of \<open>readCount\<close> is never
  taken there (lemmas \<open>queueLoop_keys\<close> and \<open>keysOK_lookup\<close> below).
\<close>

type_synonym counters = "(nat \<times> int) list"

definition initCounts :: "player list \<Rightarrow> counters" where
  "initCounts availablePlayers =
     foldl (\<lambda>queueCount p. AList.update (player_id p) 0 queueCount) [] availablePlayers"

definition readCount :: "counters \<Rightarrow> player \<Rightarrow> int" where
  "readCount queueCount p =
     (case map_of queueCount (player_id p) of Some c \<Rightarrow> c | None \<Rightarrow> 0)"

text \<open>\<open>queueCount[p.id] === currentMinCount\<close>\<close>

definition hasMinCount :: "counters \<Rightarrow> int \<Rightarrow> player \<Rightarrow> bool" where
  "hasMinCount queueCount currentMinCount p =
     (map_of queueCount (player_id p) = Some currentMinCount)"

text \<open>\<open>queueCount[p.id]++\<close>\<close>

definition bumpCount :: "counters \<Rightarrow> player \<Rightarrow> counters" where
  "bumpCount queueCount p = AList.update (player_id p) (readCount queueCount p + 1) queueCount"

subsection \<open>Enumeration of the candidates\<close>

text \<open>The four nested index loops, in the order in which they visit \<open>(i, j, k, l)\<close>.\<close>

definition fourIndexGroups :: "nat \<Rightarrow> (nat \<times> nat \<times> nat \<times> nat) list" where
  "fourIndexGroups n =
     concat (map (\<lambda>i.
       concat (map (\<lambda>j.
         concat (map (\<lambda>k.
           map (\<lambda>l. (i, j, k, l)) [k + 1 ..< n])
         [j + 1 ..< n - 1]))
       [i + 1 ..< n - 2]))
     [0 ..< n - 3])"

definition possibleTeams :: "player list \<Rightarrow> matchup list" where
  "possibleTeams fourPlayers =
     [\<lparr>team1 = [fourPlayers ! 0, fourPlayers ! 1], team2 = [fourPlayers ! 2, fourPlayers ! 3]\<rparr>,
      \<lparr>team1 = [fourPlayers ! 0, fourPlayers ! 2], team2 = [fourPlayers ! 1, fourPlayers ! 3]\<rparr>,
      \<lparr>team1 = [fourPlayers ! 0, fourPlayers ! 3], team2 = [fourPlayers ! 1, fourPlayers ! 2]\<rparr>]"

subsection \<open>The score of one team split\<close>

text \<open>
  An entry of \<open>newQueue\<close> has the properties \<open>team1\<close> and \<open>team2\<close> only. When it is
  read as a game row inside \<open>allGamesIncludingQueue\<close>, each of the four id properties
  is absent and reads as \<open>undefined\<close>.
\<close>

definition queuedAsGame :: "matchup \<Rightarrow> nat option game" where
  "queuedAsGame m =
     \<lparr>team1_player1_id = None, team1_player2_id = None,
      team2_player1_id = None, team2_player2_id = None\<rparr>"

definition allGamesIncludingQueue ::
  "nat option game list \<Rightarrow> nat option game list \<Rightarrow> matchup list \<Rightarrow> nat option game list" where
  "allGamesIncludingQueue allGames queuedGames newQueue =
     allGames @ queuedGames @ map queuedAsGame newQueue"

text \<open>The value of \<open>p.id\<close>, as it is compared with the slots of a game row.\<close>

definition pid :: "player \<Rightarrow> nat option" where
  "pid p = Some (player_id p)"

definition minBonus :: "counters \<Rightarrow> int \<Rightarrow> matchup \<Rightarrow> int" where
  "minBonus queueCount currentMinCount teams =
     (let allPlayersInMatch = team1 teams @ team2 teams;
          playersWithMinInMatch =
            int (length (filter (hasMinCount queueCount currentMinCount) allPlayersInMatch))
      in playersWithMinInMatch * 1000000)"

definition balanceScore :: "counters \<Rightarrow> matchup \<Rightarrow> int" where
  "balanceScore queueCount teams =
     (let allPlayersInMatch = team1 teams @ team2 teams;
          playerCounts = map (readCount queueCount) allPlayersInMatch;
          minInGroup = Min (set playerCounts);
          maxInGroup = Max (set playerCounts);
          groupGap = maxInGroup - minInGroup
      in groupGap * 100000)"

definition usageScore :: "counters \<Rightarrow> matchup \<Rightarrow> int" where
  "usageScore queueCount teams =
     (let allPlayersInMatch = team1 teams @ team2 teams;
          totalQueueGames = foldl (\<lambda>sum p. sum + readCount queueCount p) 0 allPlayersInMatch
      in totalQueueGames * 10000)"

definition teammateRepeatScore :: "nat option game list \<Rightarrow> matchup \<Rightarrow> int" where
  "teammateRepeatScore games teams =
     (let team1History = getPlayerPairingHistory (pid (team1 teams ! 0)) (pid (team1 teams ! 1)) games;
          team2History = getPlayerPairingHistory (pid (team2 teams ! 0)) (pid (team2 teams ! 1)) games
      in teammates team1History * 5000 + teammates team2History * 5000)"

definition opponentRepeatScore :: "nat option game list \<Rightarrow> matchup \<Rightarrow> int" where
  "opponentRepeatScore games teams =
     foldl (\<lambda>acc p1.
       foldl (\<lambda>acc' p2. acc' + opponents (getPlayerPairingHistory (pid p1) (pid p2) games) * 3000)
         acc (team2 teams))
       0 (team1 teams)"

definition loadScore :: "matchup \<Rightarrow> int" where
  "loadScore teams =
     (let allPlayersInMatch = team1 teams @ team2 teams;
          totalGamesPlayed = foldl (\<lambda>sum p. sum + total_games_played p) 0 allPlayersInMatch
      in totalGamesPlayed * 100)"

text \<open>The loops \<open>for a in 0..3, for b in a+1..3\<close> over \<open>allPlayersInMatch\<close>.\<close>

definition recentScore :: "nat option game list \<Rightarrow> matchup \<Rightarrow> int" where
  "recentScore games teams =
     (let allPlayersInMatch = team1 teams @ team2 teams
      in foldl (\<lambda>acc a.
           foldl (\<lambda>acc' b.
             acc' + getPlayerInteractionScore (pid (allPlayersInMatch ! a))
                      (pid (allPlayersInMatch ! b)) games * 10)
             acc [a + 1 ..< 4])
           0 [0 ..< 4])"

text \<open>
  \<open>totalScore\<close> of one element of \<open>possibleTeams\<close>: the seven contributions in the
  order in which the callback adds them.
\<close>

definition totalScore ::
  "counters \<Rightarrow> int \<Rightarrow> nat option game list \<Rightarrow> matchup \<Rightarrow> int" where
  "totalScore queueCount currentMinCount games teams =
     0 - minBonus queueCount currentMinCount teams
       + balanceScore queueCount teams
       + usageScore queueCount teams
       + teammateRepeatScore games teams
       + opponentRepeatScore games teams
       + loadScore teams
       + recentScore games teams"

subsection \<open>One round of the loop\<close>

text \<open>
  The pair \<open>(bestMatch, bestScore)\<close>; \<open>None\<close> is \<open>null\<close> for the match and
  \<open>Infinity\<close> for the score.
\<close>

type_synonym best = "matchup option \<times> int option"

definition considerTeams ::
  "counters \<Rightarrow> int \<Rightarrow> nat option game list \<Rightarrow> best \<Rightarrow> matchup \<Rightarrow> best" where
  "considerTeams queueCount currentMinCount games best teams =
     (let score = totalScore queueCount currentMinCount games teams
      in if (case snd best of None \<Rightarrow> True | Some bestScore \<Rightarrow> score < bestScore)
         then (Some \<lparr>team1 = team1 teams, team2 = team2 teams\<rparr>, Some score)
         else best)"

definition fourPlayersAt :: "player list \<Rightarrow> nat \<times> nat \<times> nat \<times> nat \<Rightarrow> player list" where
  "fourPlayersAt availablePlayers g =
     (case g of (i, j, k, l) \<Rightarrow>
        [availablePlayers ! i, availablePlayers ! j, availablePlayers ! k, availablePlayers ! l])"

text \<open>The \<open>continue\<close> test of the innermost loop.\<close>

definition skipGroup :: "counters \<Rightarrow> int \<Rightarrow> player list \<Rightarrow> player list \<Rightarrow> bool" where
  "skipGroup queueCount currentMinCount playersWithMinCount fourPlayers =
     (let minCountPlayersInGroup =
            length (filter (hasMinCount queueCount currentMinCount) fourPlayers)
      in length playersWithMinCount \<ge> 4 \<and> minCountPlayersInGroup < 3)"

definition scanGroup ::
  "player list \<Rightarrow> counters \<Rightarrow> int \<Rightarrow> player list \<Rightarrow> nat option game list \<Rightarrow>
   best \<Rightarrow> nat \<times> nat \<times> nat \<times> nat \<Rightarrow> best" where
  "scanGroup availablePlayers queueCount currentMinCount playersWithMinCount games best g =
     (let fourPlayers = fourPlayersAt availablePlayers g
      in if skipGroup queueCount currentMinCount playersWithMinCount fourPlayers then best
         else foldl (considerTeams queueCount currentMinCount games) best
                (possibleTeams fourPlayers))"

text \<open>
  \<open>Math.min(...Object.values(queueCount))\<close>. The object has an entry for every
  participant, and the loop is entered with at least 4 of them, so the list of values
  is not empty.
\<close>

definition currentMin :: "counters \<Rightarrow> int" where
  "currentMin queueCount = Min (set (map snd queueCount))"

definition minCountPlayers :: "player list \<Rightarrow> counters \<Rightarrow> player list" where
  "minCountPlayers availablePlayers queueCount =
     filter (hasMinCount queueCount (currentMin queueCount)) availablePlayers"

definition findBestMatch ::
  "player list \<Rightarrow> nat option game list \<Rightarrow> nat option game list \<Rightarrow>
   matchup list \<Rightarrow> counters \<Rightarrow> matchup option" where
  "findBestMatch availablePlayers allGames queuedGames newQueue queueCount =
     (let currentMinCount = currentMin queueCount;
          playersWithMinCount = minCountPlayers availablePlayers queueCount;
          games = allGamesIncludingQueue allGames queuedGames newQueue
      in fst (foldl (scanGroup availablePlayers queueCount currentMinCount playersWithMinCount games)
                (None, None) (fourIndexGroups (length availablePlayers))))"

subsection \<open>The loop and the function\<close>

definition maxQueueGames :: nat where
  "maxQueueGames = 3"

definition commitMatch :: "matchup list \<times> counters \<Rightarrow> matchup \<Rightarrow> matchup list \<times> counters" where
  "commitMatch st bestMatch =
     (fst st @ [bestMatch], foldl bumpCount (snd st) (team1 bestMatch @ team2 bestMatch))"

function queueLoop ::
  "player list \<Rightarrow> nat option game list \<Rightarrow> nat option game list \<Rightarrow>
   nat \<Rightarrow> matchup list \<times> counters \<Rightarrow> matchup list \<times> counters" where
  "queueLoop availablePlayers allGames queuedGames gameNum st =
     (if gameNum < maxQueueGames then
        (case findBestMatch availablePlayers allGames queuedGames (fst st) (snd st) of
           Some bestMatch \<Rightarrow>
             queueLoop availablePlayers allGames queuedGames (gameNum + 1) (commitMatch st bestMatch)
         | None \<Rightarrow> st)
      else st)"
  by pat_completeness auto
termination
  by (relation "measure (\<lambda>(ps, ag, qg, gameNum, st). maxQueueGames - gameNum)") auto

declare queueLoop.simps [simp del]

text \<open>The state with which the loop ends: the queue and the final usage counters.\<close>

definition runQueue ::
  "player list \<Rightarrow> nat option game list \<Rightarrow> nat option game list \<Rightarrow> matchup list \<times> counters" where
  "runQueue availablePlayers allGames queuedGames =
     queueLoop availablePlayers allGames queuedGames 0 ([], initCounts availablePlayers)"

definition generateQueue ::
  "player list \<Rightarrow> nat option game list \<Rightarrow> nat option game list \<Rightarrow> matchup list" where
  "generateQueue availablePlayers allGames queuedGames =
     (if length availablePlayers < 4 then []
      else fst (runQueue availablePlayers allGames queuedGames))"

definition finalQueueCount ::
  "player list \<Rightarrow> nat option game list \<Rightarrow> nat option game list \<Rightarrow> counters" where
  "finalQueueCount availablePlayers allGames queuedGames =
     snd (runQueue availablePlayers allGames queuedGames)"

section \<open>The specification's vocabulary\<close>

text \<open>
  The relations the specification uses to describe the pairing history: a participant
  appears in a match, two participants are on the same team, or on opposite teams. In a
  match record of the data model no participant is on both teams.
\<close>

definition inTeam1 :: "'a \<Rightarrow> 'a game \<Rightarrow> bool" where
  "inTeam1 p g = (team1_player1_id g = p \<or> team1_player2_id g = p)"

definition inTeam2 :: "'a \<Rightarrow> 'a game \<Rightarrow> bool" where
  "inTeam2 p g = (team2_player1_id g = p \<or> team2_player2_id g = p)"

definition appearsIn :: "'a \<Rightarrow> 'a game \<Rightarrow> bool" where
  "appearsIn p g = (inTeam1 p g \<or> inTeam2 p g)"

definition onSameTeam :: "'a \<Rightarrow> 'a \<Rightarrow> 'a game \<Rightarrow> bool" where
  "onSameTeam p1 p2 g = ((inTeam1 p1 g \<and> inTeam1 p2 g) \<or> (inTeam2 p1 g \<and> inTeam2 p2 g))"

definition onOppositeTeams :: "'a \<Rightarrow> 'a \<Rightarrow> 'a game \<Rightarrow> bool" where
  "onOppositeTeams p1 p2 g = ((inTeam1 p1 g \<and> inTeam2 p2 g) \<or> (inTeam2 p1 g \<and> inTeam1 p2 g))"

definition onBothTeams :: "'a \<Rightarrow> 'a game \<Rightarrow> bool" where
  "onBothTeams p g = (inTeam1 p g \<and> inTeam2 p g)"

text \<open>
  The recency score in the specification's words: over the last 10 matches, a match
  that contains both participants adds \<open>(10 - d + 1) * 2\<close>, where \<open>d\<close> is its distance
  from the end of the list and \<open>d = 1\<close> for the most recent match.
\<close>

definition interactionScoreSpec :: "'a \<Rightarrow> 'a \<Rightarrow> 'a game list \<Rightarrow> int" where
  "interactionScoreSpec p1 p2 recentGames =
     (\<Sum>d \<leftarrow> [1 ..< 11].
        if d \<le> length recentGames
           \<and> appearsIn p1 (recentGames ! (length recentGames - d))
           \<and> appearsIn p2 (recentGames ! (length recentGames - d))
        then (10 - int d + 1) * 2 else 0)"

text \<open>
  A queue entry that satisfies the distinctness invariant: two teams of two, four
  pairwise-distinct ids, no id on both teams.
\<close>

definition wellFormedMatch :: "matchup \<Rightarrow> bool" where
  "wellFormedMatch m =
     (length (team1 m) = 2 \<and> length (team2 m) = 2
      \<and> distinct (map player_id (team1 m @ team2 m))
      \<and> set (map player_id (team1 m)) \<inter> set (map player_id (team2 m)) = {})"

text \<open>The difference between the largest and the smallest usage counter.\<close>

definition usageSpread :: "counters \<Rightarrow> int" where
  "usageSpread queueCount = Max (set (map snd queueCount)) - Min (set (map snd queueCount))"

text \<open>
  The part of the score that depends on the match history and the lifetime totals: the
  teammate-repeat, opponent-repeat, historical-load and recency terms.
\<close>

definition varietyScore :: "nat option game list \<Rightarrow> matchup \<Rightarrow> int" where
  "varietyScore games teams =
     teammateRepeatScore games teams + opponentRepeatScore games teams
       + loadScore teams + recentScore games teams"

section \<open>Notions used in the proofs\<close>

text \<open>
  The groups of four that pass the pre-filter, the splits that are scored in a round,
  and all splits of all groups, in enumeration order.
\<close>

definition survivingGroups :: "player list \<Rightarrow> counters \<Rightarrow> (nat \<times> nat \<times> nat \<times> nat) list" where
  "survivingGroups availablePlayers queueCount =
     filter (\<lambda>g. \<not> skipGroup queueCount (currentMin queueCount)
                     (minCountPlayers availablePlayers queueCount) (fourPlayersAt availablePlayers g))
       (fourIndexGroups (length availablePlayers))"

definition scoredCandidates :: "player list \<Rightarrow> counters \<Rightarrow> matchup list" where
  "scoredCandidates availablePlayers queueCount =
     concat (map (\<lambda>g. possibleTeams (fourPlayersAt availablePlayers g))
               (survivingGroups availablePlayers queueCount))"

definition allSplits :: "player list \<Rightarrow> matchup list" where
  "allSplits availablePlayers =
     concat (map (\<lambda>g. possibleTeams (fourPlayersAt availablePlayers g))
               (fourIndexGroups (length availablePlayers)))"

text \<open>
  The pair \<open>(bestMatch, bestScore)\<close> after the splits in \<open>S\<close> have been considered:
  nothing when \<open>S\<close> is empty, else a split of \<open>S\<close> of least score with its score.
\<close>

definition isBest :: "(matchup \<Rightarrow> int) \<Rightarrow> matchup set \<Rightarrow> best \<Rightarrow> bool" where
  "isBest sc S b = ((S = {} \<and> b = (None, None)) \<or>
       (\<exists>m \<in> S. b = (Some m, Some (sc m)) \<and> (\<forall>x \<in> S. sc m \<le> sc x)))"

text \<open>
  Invariants of the usage counters: one entry per id of \<open>availablePlayers\<close>, and
  counters of any two active participants at most 1 apart.
\<close>

definition keysOK :: "player list \<Rightarrow> counters \<Rightarrow> bool" where
  "keysOK ps qc = (distinct (map fst qc) \<and> fst ` set qc = player_id ` set ps)"

definition spreadInv :: "player list \<Rightarrow> counters \<Rightarrow> bool" where
  "spreadInv ps qc = (\<forall>p \<in> set ps. \<forall>q \<in> set ps. readCount qc p \<le> readCount qc q + 1)"

section \<open>Example inputs\<close>

definition gameOf :: "nat \<Rightarrow> nat \<Rightarrow> nat \<Rightarrow> nat \<Rightarrow> nat game" where
  "gameOf a b c d = \<lparr>team1_player1_id = a, team1_player2_id = b,
                      team2_player1_id = c, team2_player2_id = d\<rparr>"

definition playerOf :: "nat \<Rightarrow> int \<Rightarrow> player" where
  "playerOf i t = \<lparr>player_id = i, total_games_played = t\<rparr>"

definition fourPlayers0 :: "player list" where
  "fourPlayers0 = [playerOf 1 0, playerOf 2 0, playerOf 3 0, playerOf 4 0]"

definition firstSplit0 :: matchup where
  "firstSplit0 = \<lparr>team1 = [playerOf 1 0, playerOf 2 0], team2 = [playerOf 3 0, playerOf 4 0]\<rparr>"

definition fivePlayers0 :: "player list" where
  "fivePlayers0 = [playerOf 1 0, playerOf 2 0, playerOf 3 0, playerOf 4 0, playerOf 5 0]"

definition fiveCounts0 :: counters where
  "fiveCounts0 = [(1, 1), (2, 1), (3, 1), (4, 1), (5, 0)]"

definition repeatSplit0 :: matchup where
  "repeatSplit0 = \<lparr>team1 = [playerOf 1 0, playerOf 2 0], team2 = [playerOf 3 0, playerOf 5 0]\<rparr>"

definition thirdSplit0 :: matchup where
  "thirdSplit0 = \<lparr>team1 = [playerOf 1 0, playerOf 2 0], team2 = [playerOf 4 0, playerOf 5 0]\<rparr>"

definition sixPlayers0 :: "player list" where
  "sixPlayers0 = [playerOf 1 0, playerOf 2 0, playerOf 3 0, playerOf 4 0, playerOf 5 0, playerOf 6 0]"

definition sixCounts0 :: counters where
  "sixCounts0 = [(1, 1), (2, 1), (3, 0), (4, 0), (5, 0), (6, 0)]"

definition minSplit0 :: matchup where
  "minSplit0 = \<lparr>team1 = [playerOf 3 0, playerOf 4 0], team2 = [playerOf 5 0, playerOf 6 0]\<rparr>"



section \<open>Verified properties\<close>

subsection \<open>Pairing history\<close>

lemma pairingStep_cases:
  "pairingStep p1 p2 acc g =
     (if onSameTeam p1 p2 g then acc\<lparr>teammates := teammates acc + 1\<rparr>
      else if onOppositeTeams p1 p2 g then acc\<lparr>opponents := opponents acc + 1\<rparr>
      else acc)"
  by (simp add: pairingStep_def onSameTeam_def onOppositeTeams_def inTeam1_def inTeam2_def Let_def)

lemma foldl_pairingStep:
  "foldl (pairingStep p1 p2) acc games =
     \<lparr>teammates = teammates acc + int (length (filter (onSameTeam p1 p2) games)),
      opponents = opponents acc
        + int (length (filter (\<lambda>g. onOppositeTeams p1 p2 g \<and> \<not> onSameTeam p1 p2 g) games))\<rparr>"
proof (induction games arbitrary: acc)
  case Nil
  show ?case by simp
next
  case (Cons g games)
  show ?case
    unfolding foldl_Cons Cons.IH by (simp add: pairingStep_cases)
qed

lemma getPlayerPairingHistory_eq:
  "getPlayerPairingHistory p1 p2 games =
     \<lparr>teammates = int (length (filter (onSameTeam p1 p2) games)),
      opponents = int (length (filter (\<lambda>g. onOppositeTeams p1 p2 g \<and> \<not> onSameTeam p1 p2 g) games))\<rparr>"
  by (simp add: getPlayerPairingHistory_def foldl_pairingStep)

lemma getPlayerPairingHistory_snoc:
  "getPlayerPairingHistory p1 p2 (games @ [g]) = pairingStep p1 p2 (getPlayerPairingHistory p1 p2 games) g"
  by (simp add: getPlayerPairingHistory_def)

lemma not_both_relations:
  "\<not> onBothTeams p1 g \<Longrightarrow> \<not> onBothTeams p2 g \<Longrightarrow> onOppositeTeams p1 p2 g \<Longrightarrow>
   \<not> onSameTeam p1 p2 g"
  by (auto simp: onBothTeams_def onOppositeTeams_def onSameTeam_def)

text \<open>
  Claim C6. For distinct ids \<open>p1\<close>, \<open>p2\<close> and a list of matches none of which lists
  \<open>p1\<close> or \<open>p2\<close> on both of its teams, \<open>getPlayerPairingHistory\<close> returns as
  \<open>teammates\<close> the number of matches with both on the same team and as \<open>opponents\<close>
  the number of matches with the two on opposite teams. Processing one more match
  never lowers a count and raises the two counts together by at most one; a match from
  which either id is absent leaves both counts as they were. The function is a fold
  over its argument and writes to nothing but its two local counters.
\<close>

theorem pairingHistory_counts:
  fixes p1 p2 :: 'a and games :: "'a game list"
  assumes "p1 \<noteq> p2" and "\<forall>g \<in> set games. \<not> onBothTeams p1 g \<and> \<not> onBothTeams p2 g"
  shows "teammates (getPlayerPairingHistory p1 p2 games)
           = int (length (filter (onSameTeam p1 p2) games))
       \<and> opponents (getPlayerPairingHistory p1 p2 games)
           = int (length (filter (onOppositeTeams p1 p2) games))
       \<and> (\<forall>g. let before = getPlayerPairingHistory p1 p2 games;
                  after = getPlayerPairingHistory p1 p2 (games @ [g])
              in teammates before \<le> teammates after \<and> opponents before \<le> opponents after
               \<and> (teammates after - teammates before) + (opponents after - opponents before) \<le> 1
               \<and> (\<not> appearsIn p1 g \<or> \<not> appearsIn p2 g \<longrightarrow> after = before))"
proof -
  have "filter (\<lambda>g. onOppositeTeams p1 p2 g \<and> \<not> onSameTeam p1 p2 g) games
          = filter (onOppositeTeams p1 p2) games"
    using assms(2) by (intro filter_cong) (auto dest: not_both_relations)
  then have A: "opponents (getPlayerPairingHistory p1 p2 games)
           = int (length (filter (onOppositeTeams p1 p2) games))"
    by (simp add: getPlayerPairingHistory_eq)
  have B: "teammates (getPlayerPairingHistory p1 p2 games)
           = int (length (filter (onSameTeam p1 p2) games))"
    by (simp add: getPlayerPairingHistory_eq)
  have C: "\<not> appearsIn p1 g \<or> \<not> appearsIn p2 g \<Longrightarrow> \<not> onSameTeam p1 p2 g \<and> \<not> onOppositeTeams p1 p2 g" for g
    by (auto simp: appearsIn_def onSameTeam_def onOppositeTeams_def)
  show ?thesis
    using A B C by (auto simp: Let_def getPlayerPairingHistory_snoc pairingStep_cases)
qed

text \<open>
  Claim C6 at the ids 1 and 2 and the matches \<open>(1, 2 | 3, 4)\<close>, \<open>(1, 3 | 2, 4)\<close>,
  \<open>(5, 6 | 7, 8)\<close>: once teammates, once opponents, and the third match counts for
  neither.
\<close>

theorem pairingHistory_counts_witness:
  "(1::nat) \<noteq> 2
   \<and> \<not> onBothTeams 1 (gameOf 1 2 3 4) \<and> \<not> onBothTeams 2 (gameOf 1 2 3 4)
   \<and> \<not> onBothTeams 1 (gameOf 1 3 2 4) \<and> \<not> onBothTeams 2 (gameOf 1 3 2 4)
   \<and> \<not> onBothTeams 1 (gameOf 5 6 7 8) \<and> \<not> onBothTeams 2 (gameOf 5 6 7 8)
   \<and> teammates (getPlayerPairingHistory 1 2 [gameOf 1 2 3 4, gameOf 1 3 2 4, gameOf 5 6 7 8]) = 1
   \<and> opponents (getPlayerPairingHistory 1 2 [gameOf 1 2 3 4, gameOf 1 3 2 4, gameOf 5 6 7 8]) = 1
   \<and> getPlayerPairingHistory 1 2 ([gameOf 1 2 3 4, gameOf 1 3 2 4] @ [gameOf 5 6 7 8])
       = getPlayerPairingHistory 1 2 [gameOf 1 2 3 4, gameOf 1 3 2 4]"
proof -
  have d: "\<forall>g \<in> set [gameOf 1 2 3 4, gameOf 1 3 2 4, gameOf 5 6 7 8].
             \<not> onBothTeams (1::nat) g \<and> \<not> onBothTeams 2 g"
    by (simp add: onBothTeams_def inTeam1_def inTeam2_def gameOf_def)
  have n: "(1::nat) \<noteq> 2" by simp
  from pairingHistory_counts [OF n d] show ?thesis
    using d by (simp add: onSameTeam_def onOppositeTeams_def inTeam1_def inTeam2_def gameOf_def
        getPlayerPairingHistory_def pairingStep_def)
qed

text \<open>
  Claim C7 says the counts are zero when both arguments are the same id. At the match
  \<open>(1, 2 | 3, 4)\<close> the code counts participant 1 as a teammate of participant 1.
\<close>

theorem pairingHistory_self_counterexample:
  "getPlayerPairingHistory (1::nat) 1 [gameOf 1 2 3 4] = \<lparr>teammates = 1, opponents = 0\<rparr>
   \<and> teammates (getPlayerPairingHistory (1::nat) 1 [gameOf 1 2 3 4]) \<noteq> 0"
  by (simp add: getPlayerPairingHistory_def pairingStep_def gameOf_def)

text \<open>
  Claim C7, as the code has it: \<open>getPlayerPairingHistory p p games\<close> returns as
  \<open>teammates\<close> the number of matches in which \<open>p\<close> appears, and \<open>opponents = 0\<close>.
\<close>

theorem pairingHistory_self:
  "teammates (getPlayerPairingHistory p p games) = int (length (filter (appearsIn p) games))
   \<and> opponents (getPlayerPairingHistory p p games) = 0"
proof -
  have "onSameTeam p p = appearsIn p"
    by (auto simp: onSameTeam_def appearsIn_def fun_eq_iff)
  moreover have "\<And>g. onOppositeTeams p p g \<Longrightarrow> onSameTeam p p g"
    by (auto simp: onSameTeam_def onOppositeTeams_def)
  then have "filter (\<lambda>g. onOppositeTeams p p g \<and> \<not> onSameTeam p p g) games = []"
    by (auto simp: filter_empty_conv)
  ultimately show ?thesis
    by (simp add: getPlayerPairingHistory_eq)
qed

subsection \<open>Recency score\<close>

text \<open>
  Claim C2 describes the score as the sum, over the shared matches among the last 10, of
  \<open>(10 - d + 1) * 2\<close> with \<open>d = 1\<close> for the most recent match
  (\<open>interactionScoreSpec\<close>). The code takes \<open>idx\<close> inside the slice but subtracts it from
  the length of the whole list. For 11 matches that all contain both participants the
  code returns 90 where the claim gives 110; for 21 such matches it returns \<open>-110\<close>,
  and the most recent match (position 9 of the slice) contributes \<open>-2\<close>.
\<close>

theorem interactionScore_long_list:
  "getPlayerInteractionScore (1::nat) 2 (replicate 11 (gameOf 1 2 3 4)) = 90
   \<and> interactionScoreSpec (1::nat) 2 (replicate 11 (gameOf 1 2 3 4)) = 110
   \<and> getPlayerInteractionScore (1::nat) 2 (replicate 21 (gameOf 1 2 3 4)) = - 110
   \<and> interactionScoreSpec (1::nat) 2 (replicate 21 (gameOf 1 2 3 4)) = 110
   \<and> interactionStep (1::nat) 2 (replicate 21 (gameOf 1 2 3 4)) 0 (9, gameOf 1 2 3 4) = - 2"
  by code_simp

text \<open>For a list of at most 10 matches the code computes the score the specification describes.\<close>

lemma foldl_interactionStep_sum:
  "foldl (interactionStep p1 p2 R) s xs
     = s + (\<Sum>ig \<leftarrow> xs. if appearsIn p1 (snd ig) \<and> appearsIn p2 (snd ig)
                         then (10 - (int (length R) - int (fst ig)) + 1) * 2 else 0)"
proof (induction xs arbitrary: s)
  case Nil
  show ?case by simp
next
  case (Cons ig xs)
  show ?case
    unfolding foldl_Cons Cons.IH
    by (simp add: interactionStep_def appearsIn_def inTeam1_def inTeam2_def Let_def
        maxGamesToCheck_def disj_ac)
qed

lemma interactionScore_short_list:
  assumes "length gs \<le> 10"
  shows "getPlayerInteractionScore p1 p2 gs = interactionScoreSpec p1 p2 gs"
proof -
  define n where "n = length gs"
  define w where "w = (\<lambda>i. if appearsIn p1 (gs ! i) \<and> appearsIn p2 (gs ! i)
                            then (10 - (int n - int i) + 1) * 2 else (0::int))"
  have sl: "sliceLast (nat maxGamesToCheck) gs = gs"
    using assms by (simp add: sliceLast_def maxGamesToCheck_def)
  have "getPlayerInteractionScore p1 p2 gs
      = (\<Sum>ig \<leftarrow> enumerate 0 gs. if appearsIn p1 (snd ig) \<and> appearsIn p2 (snd ig)
                         then (10 - (int n - int (fst ig)) + 1) * 2 else 0)"
    unfolding n_def by (simp add: getPlayerInteractionScore_def sl foldl_interactionStep_sum)
  also have "\<dots> = (\<Sum>i = 0..<n. w i)"
    unfolding w_def n_def sum_list_sum_nth
    by (intro sum.cong) (simp_all add: nth_enumerate_eq)
  also have "\<dots> = (\<Sum>d \<in> {1..n}. w (n - d))"
    by (rule sum.reindex_bij_witness [where i = "\<lambda>d. n - d" and j = "\<lambda>i. n - i"]) auto
  also have "\<dots> = (\<Sum>d \<in> {1..<11}. if d \<le> n then w (n - d) else 0)"
    using assms unfolding n_def [symmetric]
    by (intro sum.mono_neutral_cong_left) auto
  also have "\<dots> = interactionScoreSpec p1 p2 gs"
    unfolding interactionScoreSpec_def interv_sum_list_conv_sum_set_nat n_def [symmetric]
    by (intro sum.cong) (auto simp: w_def)
  finally show ?thesis .
qed

lemma interactionStep_absent:
  "\<not> appearsIn p1 (snd ig) \<Longrightarrow> interactionStep p1 p2 R s ig = s"
  by (auto simp: interactionStep_def appearsIn_def inTeam1_def inTeam2_def Let_def)

lemma foldl_interactionStep_absent:
  "\<forall>ig \<in> set xs. \<not> appearsIn p1 (snd ig) \<Longrightarrow> foldl (interactionStep p1 p2 R) s xs = s"
  by (induction xs arbitrary: s) (simp_all add: interactionStep_absent)

lemma interactionScore_absent:
  assumes "\<forall>g \<in> set gs. \<not> appearsIn p1 g"
  shows "getPlayerInteractionScore p1 p2 gs = 0"
proof -
  have "snd ig \<in> set gs" if "ig \<in> set (enumerate 0 (sliceLast (nat maxGamesToCheck) gs))" for ig
  proof -
    from that have "fst ig < length (sliceLast (nat maxGamesToCheck) gs)"
      and "sliceLast (nat maxGamesToCheck) gs ! fst ig = snd ig"
      by (simp_all add: in_set_enumerate_eq)
    then have "snd ig \<in> set (sliceLast (nat maxGamesToCheck) gs)"
      using nth_mem by metis
    then show ?thesis unfolding sliceLast_def by (rule in_set_dropD)
  qed
  then show ?thesis
    unfolding getPlayerInteractionScore_def
    by (intro foldl_interactionStep_absent) (use assms in blast)
qed

subsection \<open>The candidates of a round\<close>

lemma set_fourIndexGroups:
  "set (fourIndexGroups n) = {(i, j, k, l). i < j \<and> j < k \<and> k < l \<and> l < n}"
proof -
  have "(i, j, k, l) \<in> set (fourIndexGroups n) \<longleftrightarrow> i < j \<and> j < k \<and> k < l \<and> l < n" for i j k l
  proof
    assume "(i, j, k, l) \<in> set (fourIndexGroups n)"
    then show "i < j \<and> j < k \<and> k < l \<and> l < n"
      unfolding fourIndexGroups_def by auto
  next
    assume h: "i < j \<and> j < k \<and> k < l \<and> l < n"
    then have "i \<in> {0..<n - 3}" "j \<in> {Suc i..<n - 2}" "k \<in> {Suc j..<n - Suc 0}" "l \<in> {Suc k..<n}"
      by auto
    then show "(i, j, k, l) \<in> set (fourIndexGroups n)"
      unfolding fourIndexGroups_def
      by (simp del: atLeastLessThan_iff) (rule bexI [of _ i], rule bexI [of _ j], rule bexI [of _ k], auto)
  qed
  then show ?thesis by auto
qed

lemma foldl_skip_concat:
  "foldl (\<lambda>b g. if skip g then b else foldl f b (h g)) b gs
     = foldl f b (concat (map h (filter (\<lambda>g. \<not> skip g) gs)))"
  by (induction gs arbitrary: b) auto

lemma findBestMatch_fold:
  "findBestMatch ps ag qg nq qc =
     fst (foldl (considerTeams qc (currentMin qc) (allGamesIncludingQueue ag qg nq)) (None, None)
            (scoredCandidates ps qc))"
  unfolding findBestMatch_def scoredCandidates_def survivingGroups_def Let_def
  by (simp add: scanGroup_def [abs_def] Let_def foldl_skip_concat)

lemma isBest_step:
  assumes "isBest (totalScore qc c gs) S b"
  shows "isBest (totalScore qc c gs) (insert t S) (considerTeams qc c gs b t)"
  using assms unfolding isBest_def considerTeams_def Let_def
  by (auto split: option.splits)

lemma isBest_foldl:
  "isBest (totalScore qc c gs) S b \<Longrightarrow>
   isBest (totalScore qc c gs) (S \<union> set cs) (foldl (considerTeams qc c gs) b cs)"
proof (induction cs arbitrary: S b)
  case Nil
  then show ?case by simp
next
  case (Cons t cs)
  from isBest_step [OF Cons.prems] Cons.IH [of "insert t S" "considerTeams qc c gs b t"]
  show ?case by simp
qed

lemma findBestMatch_isBest:
  "isBest (totalScore qc (currentMin qc) (allGamesIncludingQueue ag qg nq))
     (set (scoredCandidates ps qc))
     (foldl (considerTeams qc (currentMin qc) (allGamesIncludingQueue ag qg nq)) (None, None)
            (scoredCandidates ps qc))"
  using isBest_foldl [of qc "currentMin qc" "allGamesIncludingQueue ag qg nq" "{}" "(None, None)"
      "scoredCandidates ps qc"]
  by (simp add: isBest_def)

lemma findBestMatch_None_iff:
  "findBestMatch ps ag qg nq qc = None \<longleftrightarrow> scoredCandidates ps qc = []"
  using findBestMatch_isBest [of qc ag qg nq ps]
  by (auto simp: findBestMatch_fold isBest_def)

lemma findBestMatch_SomeD:
  assumes "findBestMatch ps ag qg nq qc = Some m"
  shows "m \<in> set (scoredCandidates ps qc)"
    and "\<forall>x \<in> set (scoredCandidates ps qc).
           totalScore qc (currentMin qc) (allGamesIncludingQueue ag qg nq) m
           \<le> totalScore qc (currentMin qc) (allGamesIncludingQueue ag qg nq) x"
  using findBestMatch_isBest [of qc ag qg nq ps] assms
  by (auto simp: findBestMatch_fold isBest_def)

lemma set_survivingGroups:
  "set (survivingGroups ps qc) =
     {g \<in> set (fourIndexGroups (length ps)).
        \<not> skipGroup qc (currentMin qc) (minCountPlayers ps qc) (fourPlayersAt ps g)}"
  by (auto simp: survivingGroups_def)

lemma scoredCandidatesD:
  assumes "m \<in> set (scoredCandidates ps qc)"
  obtains i j k l where "i < j" "j < k" "k < l" "l < length ps"
    "\<not> skipGroup qc (currentMin qc) (minCountPlayers ps qc) [ps ! i, ps ! j, ps ! k, ps ! l]"
    "m \<in> set (possibleTeams [ps ! i, ps ! j, ps ! k, ps ! l])"
proof -
  from assms obtain g where g: "g \<in> set (survivingGroups ps qc)"
    and m: "m \<in> set (possibleTeams (fourPlayersAt ps g))"
    by (auto simp: scoredCandidates_def)
  obtain i j k l where gi: "g = (i, j, k, l)" by (cases g) auto
  from g have "i < j" "j < k" "k < l" "l < length ps"
    and "\<not> skipGroup qc (currentMin qc) (minCountPlayers ps qc) (fourPlayersAt ps g)"
    by (auto simp: set_survivingGroups set_fourIndexGroups gi)
  then show ?thesis using that m by (simp add: gi fourPlayersAt_def)
qed

lemma possibleTeams_nonempty: "possibleTeams four \<noteq> []"
  by (simp add: possibleTeams_def)

lemma possibleTeams_count:
  assumes "m \<in> set (possibleTeams [a, b, c, d])"
  shows "length (filter P (team1 m @ team2 m)) = length (filter P [a, b, c, d])"
  using assms by (auto simp: possibleTeams_def)

lemma players_of_split:
  assumes "m \<in> set (possibleTeams [a, b, c, d])"
  shows "set (team1 m @ team2 m) = {a, b, c, d}"
  using assms by (auto simp: possibleTeams_def)

lemma possibleTeams_distinct:
  assumes d: "distinct (map player_id ps)" and g: "i < j" "j < k" "k < l" "l < length ps"
    and m: "m \<in> set (possibleTeams [ps ! i, ps ! j, ps ! k, ps ! l])"
  shows "wellFormedMatch m"
proof -
  have eq: "player_id (ps ! a) = player_id (ps ! b) \<longleftrightarrow> a = b"
    if "a < length ps" "b < length ps" for a b
    using nth_eq_iff_index_eq [of "map player_id ps" a b] d that by simp
  have "player_id (ps ! i) \<noteq> player_id (ps ! j)" "player_id (ps ! i) \<noteq> player_id (ps ! k)"
    "player_id (ps ! i) \<noteq> player_id (ps ! l)" "player_id (ps ! j) \<noteq> player_id (ps ! k)"
    "player_id (ps ! j) \<noteq> player_id (ps ! l)" "player_id (ps ! k) \<noteq> player_id (ps ! l)"
    using g by (simp_all add: eq)
  then show ?thesis using m
    by (auto simp: possibleTeams_def wellFormedMatch_def)
qed

subsection \<open>A group of four that passes the pre-filter\<close>

lemma group_of_set:
  assumes "A \<subseteq> {..<n}" and "card A = 4"
  obtains i j k l :: nat where "A = {i, j, k, l}" "i < j" "j < k" "k < l" "l < n"
proof -
  have fin: "finite A" using assms(2) by (metis card.infinite zero_neq_numeral)
  define xs where "xs = sorted_list_of_set A"
  have len: "length xs = 4" and dist: "distinct xs" and srt: "sorted xs" and st: "set xs = A"
    using fin assms(2) by (simp_all add: xs_def)
  from len obtain i j k l where xs: "xs = [i, j, k, l]"
    by (auto simp: length_Suc_conv numeral_eq_Suc)
  have "i < j" "j < k" "k < l" using dist srt unfolding xs by auto
  moreover have "l < n" using st assms(1) unfolding xs by auto
  moreover have "A = {i, j, k, l}" using st unfolding xs by auto
  ultimately show ?thesis using that by blast
qed

lemma ex_group_with_min:
  fixes n :: nat and Q :: "nat \<Rightarrow> bool"
  assumes "4 \<le> n" and M_def: "M = {x. x < n \<and> Q x}"
  shows "\<exists>i j k l. i < j \<and> j < k \<and> k < l \<and> l < n \<and> card ({i, j, k, l} \<inter> M) = min 4 (card M)"
proof (cases "4 \<le> card M")
  case True
  then obtain A where A: "A \<subseteq> M" "card A = 4"
    by (meson obtain_subset_with_card_n)
  have "A \<subseteq> {..<n}" using A(1) by (auto simp: M_def)
  from group_of_set [OF this A(2)] obtain i j k l where
    g: "A = {i, j, k, l}" "i < j" "j < k" "k < l" "l < n" by blast
  have "{i, j, k, l} \<inter> M = A" using A(1) g(1) by auto
  then show ?thesis using g A(2) True by (intro exI [of _ i] exI [of _ j] exI [of _ k] exI [of _ l]) simp
next
  case False
  have finM: "finite M" by (simp add: M_def)
  have sub: "M \<subseteq> {..<n}" by (auto simp: M_def)
  have "card ({..<n} - M) = n - card M"
    using sub finM by (simp add: card_Diff_subset)
  then have "4 - card M \<le> card ({..<n} - M)" using assms(1) by simp
  then obtain B where B: "B \<subseteq> {..<n} - M" "card B = 4 - card M" "finite B"
    by (meson obtain_subset_with_card_n)
  define A where "A = M \<union> B"
  have "card A = card M + card B"
    unfolding A_def using B finM by (intro card_Un_disjoint) auto
  then have cA: "card A = 4" using B(2) False by simp
  have "A \<subseteq> {..<n}" using sub B(1) by (auto simp: A_def)
  from group_of_set [OF this cA] obtain i j k l where
    g: "A = {i, j, k, l}" "i < j" "j < k" "k < l" "l < n" by blast
  have "{i, j, k, l} \<inter> M = M" using g(1) by (auto simp: A_def)
  then show ?thesis using g False by (intro exI [of _ i] exI [of _ j] exI [of _ k] exI [of _ l]) simp
qed

lemma count_in_group:
  fixes i j k l :: nat
  assumes "i < j" "j < k" "k < l" "l < length xs"
  shows "length (filter P [xs ! i, xs ! j, xs ! k, xs ! l])
           = card ({i, j, k, l} \<inter> {x. x < length xs \<and> P (xs ! x)})"
proof -
  have "{i, j, k, l} \<inter> {x. x < length xs \<and> P (xs ! x)} = {x \<in> {i, j, k, l}. P (xs ! x)}"
    using assms by auto
  also have "card \<dots> = length (filter (\<lambda>x. P (xs ! x)) [i, j, k, l])"
    using assms by (subst distinct_card [symmetric]) (auto simp del: filter.simps)
  also have "\<dots> = length (filter P (map ((!) xs) [i, j, k, l]))"
    by (simp only: filter_map length_map comp_def)
  finally show ?thesis by simp
qed

lemma length_minCountPlayers:
  "length (minCountPlayers ps qc)
     = card {x. x < length ps \<and> hasMinCount qc (currentMin qc) (ps ! x)}"
  by (simp add: minCountPlayers_def length_filter_conv_card)

lemma skipGroup_card:
  assumes "i < j" "j < k" "k < l" "l < length ps"
  shows "skipGroup qc (currentMin qc) (minCountPlayers ps qc) (fourPlayersAt ps (i, j, k, l))
     \<longleftrightarrow> 4 \<le> card {x. x < length ps \<and> hasMinCount qc (currentMin qc) (ps ! x)}
        \<and> card ({i, j, k, l} \<inter> {x. x < length ps \<and> hasMinCount qc (currentMin qc) (ps ! x)}) < 3"
  by (simp add: skipGroup_def fourPlayersAt_def count_in_group [OF assms] length_minCountPlayers
      del: filter.simps)

lemma ex_surviving_group:
  assumes "4 \<le> length ps"
  shows "\<exists>i j k l. (i, j, k, l) \<in> set (survivingGroups ps qc)
     \<and> card ({i, j, k, l} \<inter> {x. x < length ps \<and> hasMinCount qc (currentMin qc) (ps ! x)})
         = min 4 (card {x. x < length ps \<and> hasMinCount qc (currentMin qc) (ps ! x)})"
proof -
  from ex_group_with_min [OF assms refl, of "\<lambda>x. hasMinCount qc (currentMin qc) (ps ! x)"]
  obtain i j k l where g: "i < j" "j < k" "k < l" "l < length ps"
    and c: "card ({i, j, k, l} \<inter> {x. x < length ps \<and> hasMinCount qc (currentMin qc) (ps ! x)})
         = min 4 (card {x. x < length ps \<and> hasMinCount qc (currentMin qc) (ps ! x)})"
    by blast
  have "\<not> skipGroup qc (currentMin qc) (minCountPlayers ps qc) (fourPlayersAt ps (i, j, k, l))"
    unfolding skipGroup_card [OF g] c by auto
  then have "(i, j, k, l) \<in> set (survivingGroups ps qc)"
    using g by (simp add: set_survivingGroups set_fourIndexGroups)
  then show ?thesis using c by blast
qed

lemma scoredCandidates_nonempty:
  assumes "4 \<le> length ps"
  shows "scoredCandidates ps qc \<noteq> []"
proof -
  from ex_surviving_group [OF assms, of qc] obtain i j k l
    where "(i, j, k, l) \<in> set (survivingGroups ps qc)"
    by blast
  then show ?thesis
    by (auto simp: scoredCandidates_def possibleTeams_nonempty)
qed

lemma findBestMatch_Some:
  assumes "4 \<le> length ps"
  shows "\<exists>m. findBestMatch ps ag qg nq qc = Some m"
  using scoredCandidates_nonempty [OF assms, of qc] findBestMatch_None_iff [of ps ag qg nq qc]
  by (cases "findBestMatch ps ag qg nq qc") auto

subsection \<open>The loop: length of the queue\<close>

lemma queueLoop_unfold:
  "queueLoop ps ag qg gameNum st =
     (if gameNum < maxQueueGames then
        (case findBestMatch ps ag qg (fst st) (snd st) of
           Some bestMatch \<Rightarrow> queueLoop ps ag qg (gameNum + 1) (commitMatch st bestMatch)
         | None \<Rightarrow> st)
      else st)"
  by (rule queueLoop.simps)

lemma queueLoop_invariant:
  assumes "P st"
    and "\<And>st m. P st \<Longrightarrow> findBestMatch ps ag qg (fst st) (snd st) = Some m \<Longrightarrow> P (commitMatch st m)"
  shows "P (queueLoop ps ag qg gameNum st)"
  using assms(1)
proof (induction "maxQueueGames - gameNum" arbitrary: gameNum st)
  case 0
  then show ?case by (subst queueLoop_unfold) simp
next
  case (Suc r)
  then have lt: "gameNum < maxQueueGames" and r: "r = maxQueueGames - (gameNum + 1)" by auto
  show ?case
  proof (cases "findBestMatch ps ag qg (fst st) (snd st)")
    case None
    then show ?thesis using lt Suc.prems by (subst queueLoop_unfold) simp
  next
    case (Some m)
    have "P (commitMatch st m)" using assms(2) [OF Suc.prems Some] .
    from Suc.hyps(1) [OF r this] show ?thesis
      using lt Some by (subst queueLoop_unfold) simp
  qed
qed

lemma queueLoop_invariant_round:
  assumes "P gameNum st"
    and "\<And>g st m. g < maxQueueGames \<Longrightarrow> P g st \<Longrightarrow>
           findBestMatch ps ag qg (fst st) (snd st) = Some m \<Longrightarrow> P (Suc g) (commitMatch st m)"
  shows "\<exists>g. P g (queueLoop ps ag qg gameNum st)"
  using assms(1)
proof (induction "maxQueueGames - gameNum" arbitrary: gameNum st)
  case 0
  then show ?case by (subst queueLoop_unfold) auto
next
  case (Suc r)
  then have lt: "gameNum < maxQueueGames" and r: "r = maxQueueGames - (gameNum + 1)" by auto
  show ?case
  proof (cases "findBestMatch ps ag qg (fst st) (snd st)")
    case None
    then show ?thesis using lt Suc.prems by (subst queueLoop_unfold) auto
  next
    case (Some m)
    have "P (gameNum + 1) (commitMatch st m)" using assms(2) [OF lt Suc.prems Some] by simp
    from Suc.hyps(1) [OF r this] show ?thesis
      using lt Some by (subst queueLoop_unfold) simp
  qed
qed

lemma queueLoop_length_le:
  "length (fst (queueLoop ps ag qg gameNum st)) \<le> length (fst st) + (maxQueueGames - gameNum)"
proof (induction "maxQueueGames - gameNum" arbitrary: gameNum st)
  case 0
  then show ?case by (subst queueLoop_unfold) simp
next
  case (Suc r)
  then have lt: "gameNum < maxQueueGames" and r: "r = maxQueueGames - (gameNum + 1)" by auto
  show ?case
  proof (cases "findBestMatch ps ag qg (fst st) (snd st)")
    case None
    then show ?thesis using lt by (subst queueLoop_unfold) simp
  next
    case (Some m)
    from Suc.hyps(1) [OF r, of "commitMatch st m"] show ?thesis
      using lt Some by (subst queueLoop_unfold) (simp add: commitMatch_def)
  qed
qed

lemma queueLoop_length_eq:
  assumes "4 \<le> length ps"
  shows "length (fst (queueLoop ps ag qg gameNum st)) = length (fst st) + (maxQueueGames - gameNum)"
proof (induction "maxQueueGames - gameNum" arbitrary: gameNum st)
  case 0
  then show ?case by (subst queueLoop_unfold) simp
next
  case (Suc r)
  then have lt: "gameNum < maxQueueGames" and r: "r = maxQueueGames - (gameNum + 1)" by auto
  from findBestMatch_Some [OF assms] obtain m
    where Some: "findBestMatch ps ag qg (fst st) (snd st) = Some m" by blast
  from Suc.hyps(1) [OF r, of "commitMatch st m"] show ?case
    using lt Some by (subst queueLoop_unfold) (simp add: commitMatch_def)
qed

lemma generateQueue_fourPlayers0:
  "generateQueue fourPlayers0 [] [] = [firstSplit0, firstSplit0, firstSplit0]"
  by code_simp

text \<open>
  Claim C8. \<open>generateQueue\<close> is a total function of its three arguments: every path
  of the source ends in a \<open>return\<close>, and the model has a value for each of them. The
  queue it returns has at most 3 entries, and with fewer than 4 active participants it
  is empty.
\<close>

theorem generateQueue_bounded:
  "length (generateQueue ps ag qg) \<le> 3
   \<and> (length ps < 4 \<longrightarrow> generateQueue ps ag qg = [])"
  using queueLoop_length_le [of ps ag qg 0 "([], initCounts ps)"]
  by (simp add: generateQueue_def runQueue_def maxQueueGames_def)

text \<open>Claim C8 at three participants: the queue is empty.\<close>

theorem generateQueue_bounded_witness:
  "length [playerOf 1 0, playerOf 2 0, playerOf 3 0] < 4
   \<and> generateQueue [playerOf 1 0, playerOf 2 0, playerOf 3 0] [] [] = []"
  using generateQueue_bounded [of "[playerOf 1 0, playerOf 2 0, playerOf 3 0]" "[]" "[]"]
  by simp



subsection \<open>Distinct participants in every match\<close>

text \<open>
  Claim C9. When the ids of the active participants are pairwise distinct, every entry of
  the returned queue has two teams of two participants, its four ids are pairwise
  distinct, and no id is on both teams.
\<close>

theorem generateQueue_distinct:
  assumes "distinct (map player_id ps)"
  shows "\<forall>m \<in> set (generateQueue ps ag qg).
           length (team1 m) = 2 \<and> length (team2 m) = 2
         \<and> distinct (map player_id (team1 m @ team2 m))
         \<and> set (map player_id (team1 m)) \<inter> set (map player_id (team2 m)) = {}"
proof -
  have "\<forall>m \<in> set (fst (queueLoop ps ag qg 0 ([], initCounts ps))). wellFormedMatch m"
  proof (rule queueLoop_invariant)
    show "\<forall>m \<in> set (fst ([], initCounts ps)). wellFormedMatch m" by simp
  next
    fix st m
    assume inv: "\<forall>m \<in> set (fst st). wellFormedMatch m"
      and best: "findBestMatch ps ag qg (fst st) (snd st) = Some m"
    from findBestMatch_SomeD(1) [OF best] have "m \<in> set (scoredCandidates ps (snd st))" .
    then have "wellFormedMatch m"
      by (rule scoredCandidatesD) (rule possibleTeams_distinct [OF assms])
    then show "\<forall>m \<in> set (fst (commitMatch st m)). wellFormedMatch m"
      using inv by (simp add: commitMatch_def)
  qed
  then show ?thesis
    by (simp add: generateQueue_def runQueue_def wellFormedMatch_def)
qed

text \<open>Claim C9 at four participants: the entry \<open>(1, 2 | 3, 4)\<close> of the queue.\<close>

theorem generateQueue_distinct_witness:
  "distinct (map player_id fourPlayers0)
   \<and> firstSplit0 \<in> set (generateQueue fourPlayers0 [] [])
   \<and> length (team1 firstSplit0) = 2 \<and> length (team2 firstSplit0) = 2
   \<and> distinct (map player_id (team1 firstSplit0 @ team2 firstSplit0))
   \<and> set (map player_id (team1 firstSplit0)) \<inter> set (map player_id (team2 firstSplit0)) = {}"
proof -
  have d: "distinct (map player_id fourPlayers0)" by (simp add: fourPlayers0_def playerOf_def)
  have i: "firstSplit0 \<in> set (generateQueue fourPlayers0 [] [])"
    by (simp add: generateQueue_fourPlayers0)
  from generateQueue_distinct [OF d, of "[]" "[]"] i d show ?thesis by blast
qed

subsection \<open>The fairness pre-filter\<close>

text \<open>
  Claim C5. In a round in which four or more active participants hold the minimum
  count, a group of four with fewer than 3 minimum-count participants is skipped
  (\<open>scanGroup\<close> leaves \<open>bestMatch\<close> and \<open>bestScore\<close> as they were, for any games and
  any best so far), and the match the round selects has at least 3 minimum-count
  participants. In a round with fewer than four participants at the minimum, every
  group has its three splits scored.
\<close>

theorem fairness_prefilter:
  "(4 \<le> length (minCountPlayers ps qc) \<longrightarrow>
      (\<forall>g. length (filter (hasMinCount qc (currentMin qc)) (fourPlayersAt ps g)) < 3 \<longrightarrow>
           (\<forall>games best. scanGroup ps qc (currentMin qc) (minCountPlayers ps qc) games best g = best))
    \<and> (\<forall>m. findBestMatch ps ag qg nq qc = Some m \<longrightarrow>
           3 \<le> length (filter (hasMinCount qc (currentMin qc)) (team1 m @ team2 m))))
   \<and> (length (minCountPlayers ps qc) < 4 \<longrightarrow>
      (\<forall>g games best. scanGroup ps qc (currentMin qc) (minCountPlayers ps qc) games best g
          = foldl (considerTeams qc (currentMin qc) games) best (possibleTeams (fourPlayersAt ps g))))"
proof (intro conjI impI allI)
  fix g games best
  assume "4 \<le> length (minCountPlayers ps qc)"
    and "length (filter (hasMinCount qc (currentMin qc)) (fourPlayersAt ps g)) < 3"
  then show "scanGroup ps qc (currentMin qc) (minCountPlayers ps qc) games best g = best"
    by (simp add: scanGroup_def skipGroup_def Let_def)
next
  fix m
  assume k: "4 \<le> length (minCountPlayers ps qc)"
    and best: "findBestMatch ps ag qg nq qc = Some m"
  from findBestMatch_SomeD(1) [OF best] have "m \<in> set (scoredCandidates ps qc)" .
  then show "3 \<le> length (filter (hasMinCount qc (currentMin qc)) (team1 m @ team2 m))"
  proof (rule scoredCandidatesD)
    fix i j k' l
    assume ns: "\<not> skipGroup qc (currentMin qc) (minCountPlayers ps qc) [ps ! i, ps ! j, ps ! k', ps ! l]"
      and m: "m \<in> set (possibleTeams [ps ! i, ps ! j, ps ! k', ps ! l])"
    from ns k have "3 \<le> length (filter (hasMinCount qc (currentMin qc)) [ps ! i, ps ! j, ps ! k', ps ! l])"
      by (simp add: skipGroup_def Let_def del: filter.simps)
    then show ?thesis by (simp only: possibleTeams_count [OF m])
  qed
next
  fix g games best
  assume "length (minCountPlayers ps qc) < 4"
  then show "scanGroup ps qc (currentMin qc) (minCountPlayers ps qc) games best g
          = foldl (considerTeams qc (currentMin qc) games) best (possibleTeams (fourPlayersAt ps g))"
    by (simp add: scanGroup_def skipGroup_def Let_def)
qed

text \<open>
  Claim C5 at six participants with counts \<open>1, 1, 0, 0, 0, 0\<close> (the filter is active and
  skips the group of the first four) and at five participants with counts
  \<open>1, 1, 1, 1, 0\<close> (the filter is inactive).
\<close>

theorem fairness_prefilter_witness:
  "4 \<le> length (minCountPlayers sixPlayers0 sixCounts0)
   \<and> length (filter (hasMinCount sixCounts0 (currentMin sixCounts0))
         (fourPlayersAt sixPlayers0 (0, 1, 2, 3))) < 3
   \<and> scanGroup sixPlayers0 sixCounts0 (currentMin sixCounts0)
         (minCountPlayers sixPlayers0 sixCounts0) [] (None, None) (0, 1, 2, 3) = (None, None)
   \<and> findBestMatch sixPlayers0 [] [] [] sixCounts0 = Some minSplit0
   \<and> 3 \<le> length (filter (hasMinCount sixCounts0 (currentMin sixCounts0))
         (team1 minSplit0 @ team2 minSplit0))
   \<and> length (minCountPlayers fivePlayers0 fiveCounts0) < 4
   \<and> scanGroup fivePlayers0 fiveCounts0 (currentMin fiveCounts0)
         (minCountPlayers fivePlayers0 fiveCounts0) [] (None, None) (0, 1, 2, 3)
       = foldl (considerTeams fiveCounts0 (currentMin fiveCounts0) []) (None, None)
           (possibleTeams (fourPlayersAt fivePlayers0 (0, 1, 2, 3)))"
proof -
  have h1: "4 \<le> length (minCountPlayers sixPlayers0 sixCounts0)" by code_simp
  have h2: "length (filter (hasMinCount sixCounts0 (currentMin sixCounts0))
         (fourPlayersAt sixPlayers0 (0, 1, 2, 3))) < 3" by code_simp
  have h3: "findBestMatch sixPlayers0 [] [] [] sixCounts0 = Some minSplit0" by code_simp
  have h4: "length (minCountPlayers fivePlayers0 fiveCounts0) < 4" by code_simp
  note six = fairness_prefilter [where ps = sixPlayers0 and qc = sixCounts0
      and ag = "[]" and qg = "[]" and nq = "[]"]
  note five = fairness_prefilter [where ps = fivePlayers0 and qc = fiveCounts0
      and ag = "[]" and qg = "[]" and nq = "[]"]
  from six h1 h2 have c1: "scanGroup sixPlayers0 sixCounts0 (currentMin sixCounts0)
         (minCountPlayers sixPlayers0 sixCounts0) [] (None, None) (0, 1, 2, 3) = (None, None)"
    by blast
  from six h1 h3 have c2: "3 \<le> length (filter (hasMinCount sixCounts0 (currentMin sixCounts0))
         (team1 minSplit0 @ team2 minSplit0))"
    by blast
  from five h4 have c3: "scanGroup fivePlayers0 fiveCounts0 (currentMin fiveCounts0)
         (minCountPlayers fivePlayers0 fiveCounts0) [] (None, None) (0, 1, 2, 3)
       = foldl (considerTeams fiveCounts0 (currentMin fiveCounts0) []) (None, None)
           (possibleTeams (fourPlayersAt fivePlayers0 (0, 1, 2, 3)))"
    by blast
  from h1 h2 h3 h4 c1 c2 c3 show ?thesis by blast
qed

subsection \<open>Matches committed earlier in the same call\<close>

lemma queuedAsGame_absent [simp]:
  "\<not> onSameTeam (pid x) (pid y) (queuedAsGame m)"
  "\<not> onOppositeTeams (pid x) (pid y) (queuedAsGame m)"
  "\<not> appearsIn (pid x) (queuedAsGame m)"
  by (simp_all add: onSameTeam_def onOppositeTeams_def appearsIn_def inTeam1_def inTeam2_def
      queuedAsGame_def pid_def)

lemma pairingHistory_ignores_queue:
  "getPlayerPairingHistory (pid x) (pid y) (gs @ map queuedAsGame nq)
     = getPlayerPairingHistory (pid x) (pid y) gs"
  by (simp add: getPlayerPairingHistory_eq filter_empty_conv)

lemma interactionScore_queue_only:
  "getPlayerInteractionScore (pid x) (pid y) (map queuedAsGame nq) = 0"
  by (rule interactionScore_absent) auto

lemma varietyTerms_queue_only:
  "teammateRepeatScore (map queuedAsGame nq) t = 0"
  "recentScore (map queuedAsGame nq) t = 0"
  using pairingHistory_ignores_queue [of _ _ "[]" nq]
  by (simp_all add: teammateRepeatScore_def recentScore_def interactionScore_queue_only
      getPlayerPairingHistory_def upt_rec numeral_eq_Suc)

lemma foldl_const_acc: "foldl (\<lambda>acc x. acc) a xs = a"
  by (induction xs arbitrary: a) simp_all

lemma opponentRepeat_queue_only:
  "opponentRepeatScore (map queuedAsGame nq) t = 0"
proof -
  have z: "opponents (getPlayerPairingHistory (pid x) (pid y) (map queuedAsGame nq)) = 0" for x y
    using pairingHistory_ignores_queue [of x y "[]" nq] by (simp add: getPlayerPairingHistory_def)
  show ?thesis by (simp add: opponentRepeatScore_def z foldl_const_acc)
qed

lemma repeatScores_ignore_newQueue:
  "teammateRepeatScore (allGamesIncludingQueue ag qg nq) t = teammateRepeatScore (ag @ qg) t"
  "opponentRepeatScore (allGamesIncludingQueue ag qg nq) t = opponentRepeatScore (ag @ qg) t"
  using pairingHistory_ignores_queue [of _ _ "ag @ qg" nq]
  by (simp_all add: teammateRepeatScore_def opponentRepeatScore_def allGamesIncludingQueue_def)

text \<open>
  Claim C3 says that a pair committed as teammates in round 1 is penalised when scored
  as teammates again in round 2. For five participants with an empty history, round 1
  commits \<open>(1, 2 | 3, 4)\<close>; in round 2 the split \<open>(1, 2 | 3, 5)\<close> gets teammate-repeat
  penalty 0 and is selected, and the returned queue puts 1 and 2 on the same team in
  all three matches.
\<close>

theorem committed_matches_not_penalised:
  "findBestMatch fivePlayers0 [] [] [] (initCounts fivePlayers0) = Some firstSplit0
   \<and> commitMatch ([], initCounts fivePlayers0) firstSplit0 = ([firstSplit0], fiveCounts0)
   \<and> team1 repeatSplit0 = team1 firstSplit0
   \<and> teammateRepeatScore (allGamesIncludingQueue [] [] [firstSplit0]) repeatSplit0 = 0
   \<and> opponentRepeatScore (allGamesIncludingQueue [] [] [firstSplit0]) firstSplit0 = 0
   \<and> findBestMatch fivePlayers0 [] [] [firstSplit0] fiveCounts0 = Some repeatSplit0
   \<and> generateQueue fivePlayers0 [] [] = [firstSplit0, repeatSplit0, thirdSplit0]"
  by code_simp

subsection \<open>Four participants\<close>








subsection \<open>The usage counters\<close>

lemma foldl_update_keys:
  "fst ` set (foldl (\<lambda>qc p. AList.update (player_id p) (0::int) qc) qc0 xs)
     = fst ` set qc0 \<union> player_id ` set xs"
  by (induction xs arbitrary: qc0) (auto simp: dom_update)

lemma foldl_update_distinct:
  "distinct (map fst qc0) \<Longrightarrow>
   distinct (map fst (foldl (\<lambda>qc p. AList.update (player_id p) (0::int) qc) qc0 xs))"
  by (induction xs arbitrary: qc0) (auto simp: distinct_update)

lemma foldl_update_map_of:
  "map_of (foldl (\<lambda>qc p. AList.update (player_id p) (0::int) qc) qc0 xs) k
     = (if k \<in> player_id ` set xs then Some 0 else map_of qc0 k)"
  by (induction xs arbitrary: qc0) (auto simp: update_conv')

lemma keysOK_initCounts: "keysOK ps (initCounts ps)"
  by (simp add: keysOK_def initCounts_def foldl_update_keys foldl_update_distinct)

lemma readCount_initCounts: "p \<in> set ps \<Longrightarrow> readCount (initCounts ps) p = 0"
  by (simp add: readCount_def initCounts_def foldl_update_map_of)

lemma keysOK_lookup:
  assumes "keysOK ps qc" and "p \<in> set ps"
  shows "map_of qc (player_id p) = Some (readCount qc p)"
proof -
  from assms have "player_id p \<in> fst ` set qc" by (auto simp: keysOK_def)
  then obtain v where "map_of qc (player_id p) = Some v"
    by (metis domD dom_map_of_conv_image_fst)
  then show ?thesis by (simp add: readCount_def)
qed

lemma hasMinCount_iff:
  assumes "keysOK ps qc" and "p \<in> set ps"
  shows "hasMinCount qc c p \<longleftrightarrow> readCount qc p = c"
  using keysOK_lookup [OF assms] by (simp add: hasMinCount_def)

lemma keysOK_values:
  assumes "keysOK ps qc"
  shows "set (map snd qc) = readCount qc ` set ps"
proof (intro set_eqI iffI)
  fix v assume "v \<in> set (map snd qc)"
  then obtain k where kv: "(k, v) \<in> set qc" by auto
  with assms have m: "map_of qc k = Some v" by (simp add: keysOK_def)
  from kv assms obtain p where p: "p \<in> set ps" "k = player_id p"
    by (force simp: keysOK_def)
  then have "readCount qc p = v" using m by (simp add: readCount_def)
  then show "v \<in> readCount qc ` set ps" using p by blast
next
  fix v assume "v \<in> readCount qc ` set ps"
  then obtain p where p: "p \<in> set ps" "v = readCount qc p" by blast
  from keysOK_lookup [OF assms p(1)] have "(player_id p, v) \<in> set qc"
    using p(2) by (simp add: map_of_SomeD)
  then show "v \<in> set (map snd qc)" by force
qed

lemma readCount_bumpCount:
  "readCount (bumpCount qc x) p
     = readCount qc p + (if player_id x = player_id p then 1 else 0)"
  by (simp add: readCount_def bumpCount_def update_conv')

lemma readCount_foldl_bumpCount:
  "readCount (foldl bumpCount qc xs) p
     = readCount qc p + int (length (filter (\<lambda>x. player_id x = player_id p) xs))"
  by (induction xs arbitrary: qc) (simp_all add: readCount_bumpCount)

lemma keysOK_bumpCount:
  assumes "keysOK ps qc" and "x \<in> set ps"
  shows "keysOK ps (bumpCount qc x)"
  using assms by (auto simp: keysOK_def bumpCount_def dom_update distinct_update)

lemma keysOK_foldl_bumpCount:
  "keysOK ps qc \<Longrightarrow> set xs \<subseteq> set ps \<Longrightarrow> keysOK ps (foldl bumpCount qc xs)"
  by (induction xs arbitrary: qc) (simp_all add: keysOK_bumpCount)

text \<open>
  Every id that the loop reads from \<open>queueCount\<close> was written by the initialisation:
  the keys are the ids of \<open>availablePlayers\<close> in every round.
\<close>

lemma queueLoop_keys:
  "keysOK ps (snd (queueLoop ps ag qg gameNum ([], initCounts ps)))"
proof (rule queueLoop_invariant [where P = "\<lambda>st. keysOK ps (snd st)"])
  show "keysOK ps (snd ([], initCounts ps))" by (simp add: keysOK_initCounts)
next
  fix st m
  assume k: "keysOK ps (snd st)" and best: "findBestMatch ps ag qg (fst st) (snd st) = Some m"
  from findBestMatch_SomeD(1) [OF best] obtain i j k' l
    where g: "i < j" "j < k'" "k' < l" "l < length ps"
      and m: "m \<in> set (possibleTeams [ps ! i, ps ! j, ps ! k', ps ! l])"
    by (rule scoredCandidatesD)
  have "set (team1 m @ team2 m) \<subseteq> set ps"
    unfolding players_of_split [OF m] using g by simp
  then show "keysOK ps (snd (commitMatch st m))"
    unfolding commitMatch_def snd_conv by (rule keysOK_foldl_bumpCount [OF k])
qed

lemma currentMin_readCount:
  assumes "keysOK ps qc" and "ps \<noteq> []"
  shows "\<forall>p \<in> set ps. currentMin qc \<le> readCount qc p"
    and "\<exists>p \<in> set ps. readCount qc p = currentMin qc"
proof -
  have v: "set (map snd qc) = readCount qc ` set ps" by (rule keysOK_values [OF assms(1)])
  have fin: "finite (readCount qc ` set ps)" and ne: "readCount qc ` set ps \<noteq> {}"
    using assms(2) by simp_all
  show "\<forall>p \<in> set ps. currentMin qc \<le> readCount qc p"
    unfolding currentMin_def v using fin by simp
  from Min_in [OF fin ne] show "\<exists>p \<in> set ps. readCount qc p = currentMin qc"
    unfolding currentMin_def v by force
qed

lemma usageSpread_le:
  assumes "keysOK ps qc" and "ps \<noteq> []"
    and "\<forall>p \<in> set ps. \<forall>q \<in> set ps. readCount qc p \<le> readCount qc q + 1"
  shows "usageSpread qc \<le> 1"
proof -
  have v: "set (map snd qc) = readCount qc ` set ps" by (rule keysOK_values [OF assms(1)])
  have fin: "finite (readCount qc ` set ps)" and ne: "readCount qc ` set ps \<noteq> {}"
    using assms(2) by simp_all
  from Max_in [OF fin ne] obtain p where p: "p \<in> set ps" "Max (readCount qc ` set ps) = readCount qc p"
    by force
  from Min_in [OF fin ne] obtain q where q: "q \<in> set ps" "Min (readCount qc ` set ps) = readCount qc q"
    by force
  from assms(3) p(1) q(1) have "readCount qc p \<le> readCount qc q + 1" by blast
  then show ?thesis unfolding usageSpread_def v p(2) q(2) by simp
qed

subsection \<open>Spread of the final counters\<close>

lemma totalScore_variety:
  "totalScore qc c games t =
     balanceScore qc t + usageScore qc t + varietyScore games t - minBonus qc c t"
  by (simp add: totalScore_def varietyScore_def)

lemma scoredCandidates_subset: "set (scoredCandidates ps qc) \<subseteq> set (allSplits ps)"
  by (auto simp: scoredCandidates_def allSplits_def survivingGroups_def)

lemma possibleTeams_parts:
  assumes "t \<in> set (possibleTeams [a, b, c, d])"
  shows "minBonus qc cm t = int (length (filter (hasMinCount qc cm) [a, b, c, d])) * 1000000"
    and "usageScore qc t
           = (readCount qc a + readCount qc b + readCount qc c + readCount qc d) * 10000"
    and "balanceScore qc t
           = (Max (readCount qc ` {a, b, c, d}) - Min (readCount qc ` {a, b, c, d})) * 100000"
  using assms
  by (auto simp: possibleTeams_def minBonus_def usageScore_def balanceScore_def insert_commute)

lemma sum_two_levels:
  fixes f :: "'a \<Rightarrow> int"
  assumes "\<forall>x \<in> {a, b, c, d}. f x = c0 \<or> f x = c0 + 1"
  shows "f a + f b + f c + f d = 4 * (c0 + 1) - int (length (filter (\<lambda>x. f x = c0) [a, b, c, d]))"
  using assms by auto

lemma gap_two_levels:
  fixes f :: "'a \<Rightarrow> int"
  assumes "\<forall>x \<in> {a, b, c, d}. f x = c0 \<or> f x = c0 + 1"
  shows "0 \<le> Max (f ` {a, b, c, d}) - Min (f ` {a, b, c, d})"
    and "Max (f ` {a, b, c, d}) - Min (f ` {a, b, c, d}) \<le> 1"
proof -
  have fin: "finite (f ` {a, b, c, d})" and ne: "f ` {a, b, c, d} \<noteq> {}" by simp_all
  have "Min (f ` {a, b, c, d}) \<le> Max (f ` {a, b, c, d})"
    by (rule Max_ge [OF fin Min_in [OF fin ne]])
  then show "0 \<le> Max (f ` {a, b, c, d}) - Min (f ` {a, b, c, d})" by linarith
  have "Max (f ` {a, b, c, d}) \<le> c0 + 1"
    using assms fin ne by (subst Max_le_iff) auto
  moreover have "c0 \<le> Min (f ` {a, b, c, d})"
    using assms fin ne by (subst Min_ge_iff) auto
  ultimately show "Max (f ` {a, b, c, d}) - Min (f ` {a, b, c, d}) \<le> 1" by linarith
qed

text \<open>Bounds of the score of a split whose four participants are at the minimum or one above.\<close>

lemma totalScore_bounds:
  assumes k: "keysOK ps qc" and t: "t \<in> set (possibleTeams [a, b, c, d])"
    and mem: "{a, b, c, d} \<subseteq> set ps"
    and lv: "\<forall>p \<in> set ps. readCount qc p = c0 \<or> readCount qc p = c0 + 1"
  defines "mc \<equiv> int (length (filter (hasMinCount qc c0) [a, b, c, d]))"
  shows "40000 * (c0 + 1) - 1010000 * mc + varietyScore games t \<le> totalScore qc c0 games t"
    and "totalScore qc c0 games t
           \<le> 40000 * (c0 + 1) - 1010000 * mc + varietyScore games t + 100000"
proof -
  have lv4: "\<forall>x \<in> {a, b, c, d}. readCount qc x = c0 \<or> readCount qc x = c0 + 1"
    using lv mem by blast
  have "filter (hasMinCount qc c0) [a, b, c, d] = filter (\<lambda>x. readCount qc x = c0) [a, b, c, d]"
    using mem by (intro filter_cong) (auto simp: hasMinCount_iff [OF k])
  then have mc: "mc = int (length (filter (\<lambda>x. readCount qc x = c0) [a, b, c, d]))"
    by (simp add: mc_def)
  have u: "usageScore qc t = (4 * (c0 + 1) - mc) * 10000"
    unfolding possibleTeams_parts(2) [OF t] sum_two_levels [OF lv4] mc by simp
  define gap where "gap = Max (readCount qc ` {a, b, c, d}) - Min (readCount qc ` {a, b, c, d})"
  have bg: "balanceScore qc t = gap * 100000"
    unfolding gap_def by (rule possibleTeams_parts(3) [OF t])
  have "0 \<le> gap" "gap \<le> 1"
    unfolding gap_def by (rule gap_two_levels [OF lv4])+
  then have b: "0 \<le> balanceScore qc t" "balanceScore qc t \<le> 100000"
    unfolding bg by simp_all
  have m: "minBonus qc c0 t = mc * 1000000"
    unfolding possibleTeams_parts(1) [OF t] mc_def by simp
  show "40000 * (c0 + 1) - 1010000 * mc + varietyScore games t \<le> totalScore qc c0 games t"
    unfolding totalScore_variety u m using b(1) by simp
  show "totalScore qc c0 games t
           \<le> 40000 * (c0 + 1) - 1010000 * mc + varietyScore games t + 100000"
    unfolding totalScore_variety u m using b(2) by simp
qed

lemma levels_of_spread:
  assumes k: "keysOK ps qc" and ne: "ps \<noteq> []" and s: "spreadInv ps qc"
  shows "\<forall>p \<in> set ps. readCount qc p = currentMin qc \<or> readCount qc p = currentMin qc + 1"
proof
  fix p assume p: "p \<in> set ps"
  from currentMin_readCount(2) [OF k ne] obtain q where q: "q \<in> set ps" "readCount qc q = currentMin qc"
    by blast
  from s p q(1) have "readCount qc p \<le> readCount qc q + 1" by (simp add: spreadInv_def)
  moreover from currentMin_readCount(1) [OF k ne] p have "currentMin qc \<le> readCount qc p" by blast
  ultimately show "readCount qc p = currentMin qc \<or> readCount qc p = currentMin qc + 1"
    using q(2) by linarith
qed

lemma first_split_scored:
  assumes "(i, j, k, l) \<in> set (survivingGroups ps qc)"
  shows "\<lparr>team1 = [ps ! i, ps ! j], team2 = [ps ! k, ps ! l]\<rparr> \<in> set (scoredCandidates ps qc)"
    and "\<lparr>team1 = [ps ! i, ps ! j], team2 = [ps ! k, ps ! l]\<rparr>
           \<in> set (possibleTeams [ps ! i, ps ! j, ps ! k, ps ! l])"
    and "i < j \<and> j < k \<and> k < l \<and> l < length ps"
proof -
  show "\<lparr>team1 = [ps ! i, ps ! j], team2 = [ps ! k, ps ! l]\<rparr>
           \<in> set (possibleTeams [ps ! i, ps ! j, ps ! k, ps ! l])"
    by (simp add: possibleTeams_def)
  then show "\<lparr>team1 = [ps ! i, ps ! j], team2 = [ps ! k, ps ! l]\<rparr> \<in> set (scoredCandidates ps qc)"
    using assms unfolding scoredCandidates_def
    by (auto simp: fourPlayersAt_def intro!: bexI [of _ "(i, j, k, l)"])
  show "i < j \<and> j < k \<and> k < l \<and> l < length ps"
    using assms by (simp add: set_survivingGroups set_fourIndexGroups)
qed

lemma minCount_index_set:
  assumes "keysOK ps qc"
  shows "{x. x < length ps \<and> hasMinCount qc c (ps ! x)}
           = {x. x < length ps \<and> readCount qc (ps ! x) = c}"
  using hasMinCount_iff [OF assms] by auto

text \<open>
  The match of a round holds as many minimum-count participants as a group of four can,
  when the counters differ by at most one and the history part of the scores of any two
  splits differs by less than 910000.
\<close>

lemma selected_has_most_min:
  assumes k: "keysOK ps qc" and s: "spreadInv ps qc"
    and vb: "\<forall>x \<in> set (allSplits ps). \<forall>y \<in> set (allSplits ps).
               varietyScore (allGamesIncludingQueue ag qg nq) x
                 - varietyScore (allGamesIncludingQueue ag qg nq) y < 910000"
    and best: "findBestMatch ps ag qg nq qc = Some m"
  obtains i j k l where "i < j" "j < k" "k < l" "l < length ps"
    "m \<in> set (possibleTeams [ps ! i, ps ! j, ps ! k, ps ! l])"
    "min 4 (card {x. x < length ps \<and> readCount qc (ps ! x) = currentMin qc})
       \<le> card ({i, j, k, l} \<inter> {x. x < length ps \<and> readCount qc (ps ! x) = currentMin qc})"
proof -
  define c0 where "c0 = currentMin qc"
  define M where "M = {x. x < length ps \<and> readCount qc (ps ! x) = c0}"
  define games where "games = allGamesIncludingQueue ag qg nq"
  have M_has: "{x. x < length ps \<and> hasMinCount qc (currentMin qc) (ps ! x)} = M"
    unfolding M_def c0_def by (rule minCount_index_set [OF k])
  from findBestMatch_SomeD [OF best]
  have m_in: "m \<in> set (scoredCandidates ps qc)"
    and m_min: "\<forall>x \<in> set (scoredCandidates ps qc). totalScore qc c0 games m \<le> totalScore qc c0 games x"
    by (simp_all add: c0_def games_def)
  from m_in obtain i j k' l where g: "i < j" "j < k'" "k' < l" "l < length ps"
    and m_split: "m \<in> set (possibleTeams [ps ! i, ps ! j, ps ! k', ps ! l])"
    by (rule scoredCandidatesD)
  from g have n4: "4 \<le> length ps" and ne: "ps \<noteq> []" by auto
  have lv: "\<forall>p \<in> set ps. readCount qc p = c0 \<or> readCount qc p = c0 + 1"
    unfolding c0_def by (rule levels_of_spread [OF k ne s])
  from ex_surviving_group [OF n4, of qc] obtain i' j' k'' l'
    where sv: "(i', j', k'', l') \<in> set (survivingGroups ps qc)"
      and cy: "card ({i', j', k'', l'} \<inter> M) = min 4 (card M)"
    unfolding M_has by blast
  define y where "y = \<lparr>team1 = [ps ! i', ps ! j'], team2 = [ps ! k'', ps ! l']\<rparr>"
  note fs = first_split_scored [OF sv, folded y_def]
  from fs(3) have g': "i' < j'" "j' < k''" "k'' < l'" "l' < length ps" by simp_all
  have mem: "{ps ! i, ps ! j, ps ! k', ps ! l} \<subseteq> set ps"
    and mem': "{ps ! i', ps ! j', ps ! k'', ps ! l'} \<subseteq> set ps"
    using g g' by simp_all
  have mc_m: "length (filter (hasMinCount qc c0) [ps ! i, ps ! j, ps ! k', ps ! l])
       = card ({i, j, k', l} \<inter> M)"
    unfolding count_in_group [OF g] c0_def M_has ..
  have mc_y: "length (filter (hasMinCount qc c0) [ps ! i', ps ! j', ps ! k'', ps ! l'])
       = min 4 (card M)"
    unfolding count_in_group [OF g'] c0_def M_has cy ..
  have lo: "40000 * (c0 + 1) - 1010000 * int (card ({i, j, k', l} \<inter> M)) + varietyScore games m
       \<le> totalScore qc c0 games m"
    using totalScore_bounds(1) [OF k m_split mem lv, of games] unfolding mc_m .
  have hi: "totalScore qc c0 games y
       \<le> 40000 * (c0 + 1) - 1010000 * int (min 4 (card M)) + varietyScore games y + 100000"
    using totalScore_bounds(2) [OF k fs(2) mem' lv, of games] unfolding mc_y .
  have le: "totalScore qc c0 games m \<le> totalScore qc c0 games y"
    using m_min fs(1) by blast
  have "m \<in> set (allSplits ps)" "y \<in> set (allSplits ps)"
    using m_in fs(1) scoredCandidates_subset by blast+
  with vb have "varietyScore games y - varietyScore games m < 910000"
    unfolding games_def by blast
  with lo hi le have "1010000 * int (min 4 (card M)) < 1010000 * int (card ({i, j, k', l} \<inter> M)) + 1010000"
    by linarith
  then have "min 4 (card M) \<le> card ({i, j, k', l} \<inter> M)" by linarith
  then show ?thesis using that [OF g m_split] unfolding M_def c0_def by blast
qed

lemma readCount_commit:
  assumes d: "distinct (map player_id ps)"
    and g: "i < j" "j < k" "k < l" "l < length ps"
    and m: "m \<in> set (possibleTeams [ps ! i, ps ! j, ps ! k, ps ! l])"
    and x: "x < length ps"
  shows "readCount (foldl bumpCount qc (team1 m @ team2 m)) (ps ! x)
           = readCount qc (ps ! x) + (if x \<in> {i, j, k, l} then 1 else 0)"
proof -
  have eq: "player_id (ps ! y) = player_id (ps ! x) \<longleftrightarrow> y = x" if "y < length ps" for y
    using nth_eq_iff_index_eq [of "map player_id ps" y x] d that x by simp
  have "{y. y < length ps \<and> player_id (ps ! y) = player_id (ps ! x)} = {x}"
    using eq x by auto
  then have "length (filter (\<lambda>q. player_id q = player_id (ps ! x)) [ps ! i, ps ! j, ps ! k, ps ! l])
      = card ({i, j, k, l} \<inter> {x})"
    unfolding count_in_group [OF g] by simp
  also have "\<dots> = (if x \<in> {i, j, k, l} then 1 else 0)" by simp
  finally show ?thesis
    unfolding readCount_foldl_bumpCount possibleTeams_count [OF m] by simp
qed

lemma spread_step:
  fixes rc rc' :: "nat \<Rightarrow> int"
  assumes lv: "\<forall>x < n. rc x = c0 \<or> rc x = c0 + 1"
    and new: "\<forall>x < n. rc' x = rc x + (if x \<in> G then 1 else 0)"
    and sel: "G \<subseteq> {x. x < n \<and> rc x = c0} \<or> {x. x < n \<and> rc x = c0} \<subseteq> G"
    and x: "x < n" and y: "y < n"
  shows "rc' x \<le> rc' y + 1"
proof -
  from sel show ?thesis
  proof
    assume sub: "G \<subseteq> {x. x < n \<and> rc x = c0}"
    have "rc' x \<le> c0 + 1" using lv new x sub by (cases "x \<in> G") auto
    moreover have "c0 \<le> rc' y" using lv new y by (cases "y \<in> G") auto
    ultimately show ?thesis by linarith
  next
    assume sup: "{x. x < n \<and> rc x = c0} \<subseteq> G"
    have "rc' x \<le> c0 + 2" using lv new x by (cases "x \<in> G") auto
    moreover have "c0 + 1 \<le> rc' y"
    proof (cases "rc y = c0")
      case True
      then have "y \<in> G" using sup y by blast
      then show ?thesis using new y True by simp
    next
      case False
      then have "rc y = c0 + 1" using lv y by blast
      then show ?thesis using new y by (cases "y \<in> G") auto
    qed
    ultimately show ?thesis by linarith
  qed
qed

lemma most_min_cases:
  fixes i j k l :: nat
  assumes g: "i < j" "j < k" "k < l" and fin: "finite M"
    and c: "min 4 (card M) \<le> card ({i, j, k, l} \<inter> M)"
  shows "{i, j, k, l} \<subseteq> M \<or> M \<subseteq> {i, j, k, l}"
proof (cases "4 \<le> card M")
  case True
  have cg: "card {i, j, k, l} = 4" using g by simp
  have "card ({i, j, k, l} \<inter> M) \<le> card {i, j, k, l}" by (intro card_mono) auto
  with c True cg have "card ({i, j, k, l} \<inter> M) = card {i, j, k, l}" by simp
  then have "{i, j, k, l} \<inter> M = {i, j, k, l}"
    by (intro card_subset_eq) auto
  then show ?thesis by blast
next
  case False
  have "card ({i, j, k, l} \<inter> M) \<le> card M" using fin by (intro card_mono) auto
  with c False have "card ({i, j, k, l} \<inter> M) = card M" by simp
  then have "{i, j, k, l} \<inter> M = M"
    using fin by (intro card_subset_eq) auto
  then show ?thesis by blast
qed

lemma commit_preserves:
  assumes d: "distinct (map player_id ps)"
    and k: "keysOK ps qc" and s: "spreadInv ps qc"
    and vb: "\<forall>x \<in> set (allSplits ps). \<forall>y \<in> set (allSplits ps).
               varietyScore (allGamesIncludingQueue ag qg nq) x
                 - varietyScore (allGamesIncludingQueue ag qg nq) y < 910000"
    and best: "findBestMatch ps ag qg nq qc = Some m"
  shows "keysOK ps (foldl bumpCount qc (team1 m @ team2 m))"
    and "spreadInv ps (foldl bumpCount qc (team1 m @ team2 m))"
proof -
  define c0 where "c0 = currentMin qc"
  define qc' where "qc' = foldl bumpCount qc (team1 m @ team2 m)"
  from selected_has_most_min [OF k s vb best] obtain i j k' l
    where g: "i < j" "j < k'" "k' < l" "l < length ps"
      and m: "m \<in> set (possibleTeams [ps ! i, ps ! j, ps ! k', ps ! l])"
      and c: "min 4 (card {x. x < length ps \<and> readCount qc (ps ! x) = c0})
       \<le> card ({i, j, k', l} \<inter> {x. x < length ps \<and> readCount qc (ps ! x) = c0})"
    unfolding c0_def by blast
  from g have ne: "ps \<noteq> []" by auto
  have "set (team1 m @ team2 m) \<subseteq> set ps"
    unfolding players_of_split [OF m] using g by simp
  then show "keysOK ps (foldl bumpCount qc (team1 m @ team2 m))"
    by (rule keysOK_foldl_bumpCount [OF k])
  have lv: "\<forall>x < length ps. readCount qc (ps ! x) = c0 \<or> readCount qc (ps ! x) = c0 + 1"
    using levels_of_spread [OF k ne s] unfolding c0_def by simp
  have new: "\<forall>x < length ps. readCount qc' (ps ! x)
        = readCount qc (ps ! x) + (if x \<in> {i, j, k', l} then 1 else 0)"
    unfolding qc'_def using readCount_commit [OF d g m] by blast
  have sel: "{i, j, k', l} \<subseteq> {x. x < length ps \<and> readCount qc (ps ! x) = c0}
      \<or> {x. x < length ps \<and> readCount qc (ps ! x) = c0} \<subseteq> {i, j, k', l}"
    by (rule most_min_cases [OF g(1-3) _ c]) simp
  have "readCount qc' (ps ! x) \<le> readCount qc' (ps ! y) + 1"
    if "x < length ps" "y < length ps" for x y
    using spread_step [where rc = "\<lambda>x. readCount qc (ps ! x)" and rc' = "\<lambda>x. readCount qc' (ps ! x)",
        OF lv new sel that] .
  then show "spreadInv ps (foldl bumpCount qc (team1 m @ team2 m))"
    unfolding spreadInv_def qc'_def [symmetric] by (metis in_set_conv_nth)
qed

lemma spread_of_bounded_variety:
  assumes n4: "4 \<le> length ps" and d: "distinct (map player_id ps)"
    and vb: "\<forall>nq. length nq < 3 \<longrightarrow>
               (\<forall>x \<in> set (allSplits ps). \<forall>y \<in> set (allSplits ps).
                  varietyScore (allGamesIncludingQueue ag qg nq) x
                    - varietyScore (allGamesIncludingQueue ag qg nq) y < 910000)"
  shows "length (generateQueue ps ag qg) = 3 \<and> usageSpread (finalQueueCount ps ag qg) \<le> 1"
proof -
  from n4 have ne: "ps \<noteq> []" by auto
  define P where "P = (\<lambda>g (st :: matchup list \<times> counters). length (fst st) = g \<and> keysOK ps (snd st) \<and> spreadInv ps (snd st))"
  have init: "P 0 ([], initCounts ps)"
    by (simp add: P_def keysOK_initCounts spreadInv_def readCount_initCounts)
  have step: "P (Suc g) (commitMatch st m)"
    if "g < maxQueueGames" "P g st" "findBestMatch ps ag qg (fst st) (snd st) = Some m" for g st m
  proof -
    from that(1,2) have "length (fst st) < 3" by (simp add: P_def maxQueueGames_def)
    with vb have vb': "\<forall>x \<in> set (allSplits ps). \<forall>y \<in> set (allSplits ps).
               varietyScore (allGamesIncludingQueue ag qg (fst st)) x
                 - varietyScore (allGamesIncludingQueue ag qg (fst st)) y < 910000"
      by blast
    from that(2) have k: "keysOK ps (snd st)" and s: "spreadInv ps (snd st)"
      and l: "length (fst st) = g" by (simp_all add: P_def)
    from commit_preserves [OF d k s vb' that(3)] l show ?thesis
      by (simp add: P_def commitMatch_def)
  qed
  have "\<exists>g. P g (queueLoop ps ag qg 0 ([], initCounts ps))"
  proof (rule queueLoop_invariant_round)
    show "P 0 ([], initCounts ps)" by (rule init)
  next
    fix g st m
    assume "g < maxQueueGames" "P g st" "findBestMatch ps ag qg (fst st) (snd st) = Some m"
    then show "P (Suc g) (commitMatch st m)" by (rule step)
  qed
  then obtain g where "P g (queueLoop ps ag qg 0 ([], initCounts ps))" ..
  then have fk: "keysOK ps (finalQueueCount ps ag qg)"
    and fs: "spreadInv ps (finalQueueCount ps ag qg)"
    unfolding P_def finalQueueCount_def runQueue_def by blast+
  from fs have "\<forall>p \<in> set ps. \<forall>q \<in> set ps.
      readCount (finalQueueCount ps ag qg) p \<le> readCount (finalQueueCount ps ag qg) q + 1"
    unfolding spreadInv_def .
  then have "usageSpread (finalQueueCount ps ag qg) \<le> 1"
    by (rule usageSpread_le [OF fk ne])
  moreover have "length (generateQueue ps ag qg) = 3"
    using queueLoop_length_eq [OF n4, of ag qg 0 "([], initCounts ps)"] n4
    by (simp add: generateQueue_def runQueue_def maxQueueGames_def)
  ultimately show ?thesis by simp
qed



lemma varietyScore_empty_history:
  "varietyScore (allGamesIncludingQueue [] [] nq) t = loadScore t"
  by (simp add: varietyScore_def allGamesIncludingQueue_def varietyTerms_queue_only
      opponentRepeat_queue_only)


lemma loadScore_split:
  assumes "t \<in> set (possibleTeams [a, b, c, d])"
  shows "loadScore t = (total_games_played a + total_games_played b
                          + total_games_played c + total_games_played d) * 100"
  using assms by (auto simp: possibleTeams_def loadScore_def)

lemma allSplitsD:
  assumes "t \<in> set (allSplits ps)"
  obtains i j k l where "i < j" "j < k" "k < l" "l < length ps"
    "t \<in> set (possibleTeams [ps ! i, ps ! j, ps ! k, ps ! l])"
proof -
  from assms obtain g where g: "g \<in> set (fourIndexGroups (length ps))"
    and t: "t \<in> set (possibleTeams (fourPlayersAt ps g))"
    by (auto simp: allSplits_def)
  obtain i j k l where gi: "g = (i, j, k, l)" by (cases g) auto
  from g have "i < j" "j < k" "k < l" "l < length ps"
    by (auto simp: set_fourIndexGroups gi)
  then show ?thesis using that t by (simp add: gi fourPlayersAt_def)
qed

text \<open>
  An instance of the bound on the history part: no recorded matches at all, and lifetime
  totals of any two active participants at most 2274 apart.
\<close>

lemma usage_spread_empty_history:
  assumes n4: "4 \<le> length ps" and d: "distinct (map player_id ps)"
    and tot: "\<forall>p \<in> set ps. \<forall>q \<in> set ps. total_games_played p - total_games_played q \<le> 2274"
  shows "length (generateQueue ps [] []) = 3 \<and> usageSpread (finalQueueCount ps [] []) \<le> 1"
proof (rule spread_of_bounded_variety [OF n4 d], intro allI impI ballI)
  fix nq :: "matchup list" and x y
  assume x: "x \<in> set (allSplits ps)" and y: "y \<in> set (allSplits ps)"
  from x obtain i j k l where gx: "i < j" "j < k" "k < l" "l < length ps"
    and sx: "x \<in> set (possibleTeams [ps ! i, ps ! j, ps ! k, ps ! l])" by (rule allSplitsD)
  from y obtain i' j' k' l' where gy: "i' < j'" "j' < k'" "k' < l'" "l' < length ps"
    and sy: "y \<in> set (possibleTeams [ps ! i', ps ! j', ps ! k', ps ! l'])" by (rule allSplitsD)
  have "total_games_played (ps ! i) - total_games_played (ps ! i') \<le> 2274"
    "total_games_played (ps ! j) - total_games_played (ps ! j') \<le> 2274"
    "total_games_played (ps ! k) - total_games_played (ps ! k') \<le> 2274"
    "total_games_played (ps ! l) - total_games_played (ps ! l') \<le> 2274"
    using tot gx gy by simp_all
  then show "varietyScore (allGamesIncludingQueue [] [] nq) x
      - varietyScore (allGamesIncludingQueue [] [] nq) y < 910000"
    unfolding varietyScore_empty_history loadScore_split [OF sx] loadScore_split [OF sy]
    by (simp add: algebra_simps)
qed

end
